theory Spec2Isabelle
  imports Complex_Main
begin

section \<open>Platform primitives used by the scripts\<close>

subsection \<open>Class lists (DOMTokenList)\<close>

text \<open>
  An element's \<^verbatim>\<open>classList\<close> is an ordered set of tokens. \<^verbatim>\<open>add\<close> appends a token
  that is absent and leaves the list alone otherwise, \<^verbatim>\<open>remove\<close> deletes it,
  \<^verbatim>\<open>toggle\<close> flips it, and \<^verbatim>\<open>toggle(token, force)\<close> adds or removes it as
  \<^verbatim>\<open>force\<close> says.
\<close>

type_synonym classList = "string list"

definition classList_contains :: "classList \<Rightarrow> string \<Rightarrow> bool" where
  "classList_contains cl c = (c \<in> set cl)"

definition classList_add :: "classList \<Rightarrow> string \<Rightarrow> classList" where
  "classList_add cl c = (if c \<in> set cl then cl else cl @ [c])"

definition classList_remove :: "classList \<Rightarrow> string \<Rightarrow> classList" where
  "classList_remove cl c = removeAll c cl"

definition classList_toggle :: "classList \<Rightarrow> string \<Rightarrow> classList" where
  "classList_toggle cl c = (if c \<in> set cl then removeAll c cl else cl @ [c])"

definition classList_toggle_force :: "classList \<Rightarrow> string \<Rightarrow> bool \<Rightarrow> classList" where
  "classList_toggle_force cl c force = (if force then classList_add cl c else classList_remove cl c)"

subsection \<open>Rendering a non-negative integer in a template literal\<close>

definition digit_char :: "nat \<Rightarrow> char" where
  "digit_char d =
     (if d = 0 then CHR ''0'' else if d = 1 then CHR ''1'' else if d = 2 then CHR ''2''
      else if d = 3 then CHR ''3'' else if d = 4 then CHR ''4'' else if d = 5 then CHR ''5''
      else if d = 6 then CHR ''6'' else if d = 7 then CHR ''7'' else if d = 8 then CHR ''8''
      else CHR ''9'')"

fun string_of_nat :: "nat \<Rightarrow> string" where
  "string_of_nat n =
     (if n < 10 then [digit_char n] else string_of_nat (n div 10) @ [digit_char (n mod 10)])"

subsection \<open>JavaScript numbers and the coercion of strings\<close>

text \<open>
  A number is a finite value, an infinity or \<^verbatim>\<open>NaN\<close>. Finite values of this type are
  exact reals: the coercion and the product of the parallax layers are taken without the
  rounding of IEEE doubles and without the sign of zero. The arithmetic of the counter,
  where a displayed digit depends on the rounding, is taken on doubles, further below.
\<close>

datatype jsnum = Finite real | PosInf | NegInf | NaN

definition js_neg :: "jsnum \<Rightarrow> jsnum" where
  "js_neg x = (case x of Finite r \<Rightarrow> Finite (- r) | PosInf \<Rightarrow> NegInf | NegInf \<Rightarrow> PosInf | NaN \<Rightarrow> NaN)"

definition js_sign_inf :: "real \<Rightarrow> jsnum" where
  "js_sign_inf r = (if r = 0 then NaN else if 0 < r then PosInf else NegInf)"

definition js_mult :: "jsnum \<Rightarrow> jsnum \<Rightarrow> jsnum" where
  "js_mult x y =
     (case (x, y) of
        (NaN, _) \<Rightarrow> NaN
      | (_, NaN) \<Rightarrow> NaN
      | (Finite a, Finite b) \<Rightarrow> Finite (a * b)
      | (Finite a, PosInf) \<Rightarrow> js_sign_inf a
      | (Finite a, NegInf) \<Rightarrow> js_sign_inf (- a)
      | (PosInf, Finite b) \<Rightarrow> js_sign_inf b
      | (NegInf, Finite b) \<Rightarrow> js_sign_inf (- b)
      | (PosInf, PosInf) \<Rightarrow> PosInf
      | (NegInf, NegInf) \<Rightarrow> PosInf
      | (PosInf, NegInf) \<Rightarrow> NegInf
      | (NegInf, PosInf) \<Rightarrow> NegInf)"

text \<open>
  White space as \<^verbatim>\<open>trim\<close>, \<^verbatim>\<open>parseInt\<close> and the string-to-number coercion skip it, in
  the one-byte range of \<^typ>\<open>char\<close>: tab, line feed, vertical tab, form feed, carriage
  return, space and the no-break space.
\<close>

definition is_ws :: "char \<Rightarrow> bool" where
  "is_ws c = (c \<in> set [CHR 0x09, CHR 0x0A, CHR 0x0B, CHR 0x0C, CHR 0x0D, CHR 0x20, CHR 0xA0])"

definition trim :: "string \<Rightarrow> string" where
  "trim s = rev (dropWhile is_ws (rev (dropWhile is_ws s)))"

definition digit_value :: "char \<Rightarrow> nat option" where
  "digit_value c =
     map_of [(CHR ''0'', 0), (CHR ''1'', 1), (CHR ''2'', 2), (CHR ''3'', 3), (CHR ''4'', 4),
             (CHR ''5'', 5), (CHR ''6'', 6), (CHR ''7'', 7), (CHR ''8'', 8), (CHR ''9'', 9),
             (CHR ''a'', 10), (CHR ''b'', 11), (CHR ''c'', 12), (CHR ''d'', 13),
             (CHR ''e'', 14), (CHR ''f'', 15),
             (CHR ''A'', 10), (CHR ''B'', 11), (CHR ''C'', 12), (CHR ''D'', 13),
             (CHR ''E'', 14), (CHR ''F'', 15)] c"

definition is_digit :: "nat \<Rightarrow> char \<Rightarrow> bool" where
  "is_digit radix c = (case digit_value c of None \<Rightarrow> False | Some d \<Rightarrow> d < radix)"

definition digits_value :: "nat \<Rightarrow> string \<Rightarrow> nat" where
  "digits_value radix s = foldl (\<lambda>acc c. acc * radix + (case digit_value c of None \<Rightarrow> 0 | Some d \<Rightarrow> d)) 0 s"

text \<open>A non-empty run of digits of the radix, and nothing else.\<close>

definition all_digits :: "nat \<Rightarrow> string \<Rightarrow> bool" where
  "all_digits radix s = (s \<noteq> [] \<and> list_all (is_digit radix) s)"

definition scale10 :: "real \<Rightarrow> int \<Rightarrow> real" where
  "scale10 m e = (if 0 \<le> e then m * 10 ^ nat e else m / 10 ^ nat (- e))"

text \<open>The exponent part after the \<^verbatim>\<open>e\<close>: an optional sign and digits.\<close>

definition exponent_part :: "string \<Rightarrow> int option" where
  "exponent_part s =
     (case s of
        [] \<Rightarrow> None
      | c # r \<Rightarrow>
          if c = CHR ''+'' then (if all_digits 10 r then Some (int (digits_value 10 r)) else None)
          else if c = CHR ''-'' then (if all_digits 10 r then Some (- int (digits_value 10 r)) else None)
          else if all_digits 10 s then Some (int (digits_value 10 s)) else None)"

text \<open>
  An unsigned decimal literal: \<^verbatim>\<open>Infinity\<close>, or digits with an optional fraction and an
  optional exponent, with a digit on at least one side of the point.
\<close>

definition unsigned_decimal :: "string \<Rightarrow> jsnum" where
  "unsigned_decimal s =
     (if s = ''Infinity'' then PosInf
      else
        let is_e = (\<lambda>c. c = CHR ''e'' \<or> c = CHR ''E'');
            mant = takeWhile (\<lambda>c. \<not> is_e c) s;
            ex = dropWhile (\<lambda>c. \<not> is_e c) s;
            ip = takeWhile (\<lambda>c. c \<noteq> CHR ''.'') mant;
            fp = drop 1 (dropWhile (\<lambda>c. c \<noteq> CHR ''.'') mant);
            e = (if ex = [] then Some 0 else exponent_part (drop 1 ex))
        in if (ip = [] \<and> fp = []) \<or> \<not> list_all (is_digit 10) ip \<or> \<not> list_all (is_digit 10) fp
           then NaN
           else (case e of
                   None \<Rightarrow> NaN
                 | Some k \<Rightarrow>
                     Finite (scale10 (real (digits_value 10 ip)
                                      + real (digits_value 10 fp) / 10 ^ length fp) k)))"

definition radix_literal :: "string \<Rightarrow> jsnum option" where
  "radix_literal s =
     (let p = take 2 s; r = drop 2 s
      in if p = ''0x'' \<or> p = ''0X'' then Some (if all_digits 16 r then Finite (real (digits_value 16 r)) else NaN)
         else if p = ''0o'' \<or> p = ''0O'' then Some (if all_digits 8 r then Finite (real (digits_value 8 r)) else NaN)
         else if p = ''0b'' \<or> p = ''0B'' then Some (if all_digits 2 r then Finite (real (digits_value 2 r)) else NaN)
         else None)"

text \<open>\<^verbatim>\<open>Number(string)\<close>, the coercion that \<^verbatim>\<open>*\<close> applies to a string operand.\<close>

definition StringToNumber :: "string \<Rightarrow> jsnum" where
  "StringToNumber s =
     (let t = trim s
      in if t = [] then Finite 0
         else (case radix_literal t of
                 Some v \<Rightarrow> v
               | None \<Rightarrow>
                   if hd t = CHR ''+'' then unsigned_decimal (tl t)
                   else if hd t = CHR ''-'' then js_neg (unsigned_decimal (tl t))
                   else unsigned_decimal t))"

subsection \<open>Arithmetic on doubles\<close>

text \<open>
  Where a displayed digit depends on it, the arithmetic of the script is modelled as
  it runs: every operation yields the double nearest to its exact result, a tie going to
  the even significand. A double here has a significand of 53 bits and any exponent, so
  overflow and the subnormal range are outside the model.

  \<open>rne\<close> rounds a real to the nearest integer, ties to even. \<open>binade a\<close> is the
  exponent \<open>k\<close> with \<open>2\<^sup>k \<le> a < 2\<^sup>k\<^sup>+\<^sup>1\<close> for a positive \<open>a\<close>, found by counting
  the bits of its integer part, or of the integer part of its reciprocal. \<open>fl\<close>
  rounds a real to a double: it scales the significand to an integer of 53 bits and
  rounds it.
\<close>

definition rne :: "real \<Rightarrow> int" where
  "rne r = (let f = \<lfloor>r\<rfloor>; d = r - of_int f
            in if d < 1 / 2 then f else if 1 / 2 < d then f + 1
               else if even f then f else f + 1)"

fun ilog2 :: "nat \<Rightarrow> nat" where
  "ilog2 n = (if n < 2 then 0 else Suc (ilog2 (n div 2)))"

declare ilog2.simps [simp del]

definition pow2 :: "int \<Rightarrow> real" where
  "pow2 k = (if 0 \<le> k then 2 ^ nat k else 1 / 2 ^ nat (- k))"

definition binade :: "real \<Rightarrow> int" where
  "binade a = (if 1 \<le> a then int (ilog2 (nat \<lfloor>a\<rfloor>))
               else - int (Suc (ilog2 (nat (\<lceil>1 / a\<rceil> - 1)))))"

definition fl :: "real \<Rightarrow> real" where
  "fl x = (if x = 0 then 0
           else (let e = binade \<bar>x\<bar> - 52 in of_int (rne (x / pow2 e)) * pow2 e))"

definition is_double :: "real \<Rightarrow> bool" where
  "is_double x \<longleftrightarrow> fl x = x"

text \<open>
  \<^verbatim>\<open>Math.pow(x, n)\<close> for a small natural exponent. The language leaves the accuracy of
  \<^verbatim>\<open>Math.pow\<close> to the engine; the model takes the correctly rounded power.
\<close>

definition Math_pow :: "real \<Rightarrow> nat \<Rightarrow> real" where
  "Math_pow x n = fl (x ^ n)"

text \<open>
  \<^verbatim>\<open>parseInt(string)\<close> with no radix: leading white space, a sign, a \<^verbatim>\<open>0x\<close> prefix, then
  the longest run of digits; \<open>None\<close> is \<^verbatim>\<open>NaN\<close>. A missing attribute reaches it as
  the text \<^verbatim>\<open>undefined\<close>. The result is a number, so the integer the digits denote is
  rounded to a double; up to \<open>2\<^sup>5\<^sup>3\<close> that changes nothing.
\<close>

definition parseInt :: "string option \<Rightarrow> int option" where
  "parseInt arg =
     (let s = dropWhile is_ws (case arg of None \<Rightarrow> ''undefined'' | Some v \<Rightarrow> v);
          neg = (s \<noteq> [] \<and> hd s = CHR ''-'');
          s1 = (if s \<noteq> [] \<and> (hd s = CHR ''-'' \<or> hd s = CHR ''+'') then tl s else s);
          hex = (take 2 s1 = ''0x'' \<or> take 2 s1 = ''0X'');
          radix = (if hex then 16 else 10);
          ds = takeWhile (is_digit radix) (if hex then drop 2 s1 else s1)
      in if ds = [] then None
         else Some \<lfloor>fl (of_int ((if neg then - 1 else 1) * int (digits_value radix ds)))\<rfloor>)"

section \<open>The document and the reveal script\<close>

text \<open>
  An element carries what the scripts read and write: its class list, its \<^verbatim>\<open>data-*\<close>
  attributes (name without the prefix, and value), its text, the markup a script assigned
  to \<^verbatim>\<open>innerHTML\<close>, and the two inline styles the scripts set: the width in percent
  and the vertical offset, in pixels, of \<^verbatim>\<open>translate3d(0, y px, 0)\<close>. The styles hold
  the value the script wrote. Elements are identified by their position in the document.
\<close>

record element =
  classes :: classList
  dataset :: "(string \<times> string) list"
  textContent :: string
  innerHTML_written :: "string option"
  style_width :: "real option"
  style_transform :: "jsnum option"

datatype selector = HasData string | HasClass string

definition matches :: "selector \<Rightarrow> element \<Rightarrow> bool" where
  "matches sel el =
     (case sel of
        HasData k \<Rightarrow> map_of (dataset el) k \<noteq> None
      | HasClass c \<Rightarrow> classList_contains (classes el) c)"

definition querySelectorAll :: "selector \<Rightarrow> element list \<Rightarrow> nat list" where
  "querySelectorAll sel els = filter (\<lambda>i. matches sel (els ! i)) [0..<length els]"

definition update_element :: "nat \<Rightarrow> (element \<Rightarrow> element) \<Rightarrow> element list \<Rightarrow> element list" where
  "update_element i f els = (if i < length els then els[i := f (els ! i)] else els)"

definition add_class :: "string \<Rightarrow> nat \<Rightarrow> element list \<Rightarrow> element list" where
  "add_class c i els = update_element i (\<lambda>el. el\<lparr>classes := classList_add (classes el) c\<rparr>) els"

text \<open>The options object of \<^verbatim>\<open>ScrollReveals\<close>; a missing key is \<open>None\<close>.\<close>

record reveal_options =
  opt_threshold :: "real option"
  opt_rootMargin :: "string option"

record scrollReveals =
  sr_threshold :: real
  sr_rootMargin :: string
  sr_elements :: "nat list"
  sr_observer :: "nat list option"

record parallaxEffect =
  layers :: "nat list"
  ticking :: bool

text \<open>
  A counter of the application script: the element it writes, its target and duration,
  the \<^verbatim>\<open>started\<close> flag, whether its observer still watches the element, and the start
  time its running animation captured.
\<close>

record counterAnimation =
  counter_element :: nat
  target :: int
  duration :: real
  started :: bool
  observing :: bool
  startTime :: real

datatype listener = UpdateProgress | ParallaxOnScroll

datatype frame_callback = ParallaxFrame | CounterFrame nat

record page =
  elements :: "element list"
  hasIntersectionObserver :: bool
  prefersReducedMotion :: bool
  scrollY :: real
  scrollHeight :: real
  innerHeight :: real
  now :: real
  revealer :: "scrollReveals option"
  progressBar :: "nat option"
  parallax :: "parallaxEffect option"
  counters :: "counterAnimation list"
  scroll_listeners :: "listener list"
  resize_listeners :: "listener list"
  frame_requests :: "frame_callback list"

definition requestAnimationFrame :: "frame_callback \<Rightarrow> page \<Rightarrow> page" where
  "requestAnimationFrame cb p = p\<lparr>frame_requests := frame_requests p @ [cb]\<rparr>"

subsection \<open>\<^verbatim>\<open>ScrollReveals\<close>\<close>

definition revealElement :: "nat \<Rightarrow> page \<Rightarrow> page" where
  "revealElement el p = p\<lparr>elements := add_class ''revealed'' el (elements p)\<rparr>"

definition revealAll :: "nat list \<Rightarrow> page \<Rightarrow> page" where
  "revealAll els p = fold revealElement els p"

definition unobserve :: "nat \<Rightarrow> scrollReveals \<Rightarrow> scrollReveals" where
  "unobserve el sr = sr\<lparr>sr_observer := map_option (removeAll el) (sr_observer sr)\<rparr>"

definition observer_observe :: "nat \<Rightarrow> scrollReveals \<Rightarrow> scrollReveals" where
  "observer_observe el sr =
     sr\<lparr>sr_observer := map_option (\<lambda>obs. if el \<in> set obs then obs else obs @ [el]) (sr_observer sr)\<rparr>"

text \<open>The observer's callback on one entry: the target and its \<^verbatim>\<open>isIntersecting\<close>.\<close>

definition reveal_entry :: "nat \<times> bool \<Rightarrow> page \<Rightarrow> page" where
  "reveal_entry entry p =
     (if snd entry
      then (let p' = revealElement (fst entry) p
            in p'\<lparr>revealer := map_option (unobserve (fst entry)) (revealer p')\<rparr>)
      else p)"

definition reveal_callback :: "(nat \<times> bool) list \<Rightarrow> page \<Rightarrow> page" where
  "reveal_callback entries p = fold reveal_entry entries p"

text \<open>
  The constructor with \<^verbatim>\<open>init\<close>, \<^verbatim>\<open>createObserver\<close> and \<^verbatim>\<open>observeElements\<close>. The
  options are spread over the defaults, so a key that is present wins.
\<close>

definition new_ScrollReveals :: "reveal_options \<Rightarrow> page \<Rightarrow> page" where
  "new_ScrollReveals options p =
     (let els = querySelectorAll (HasData ''reveal'') (elements p);
          sr = \<lparr>sr_threshold = (case opt_threshold options of None \<Rightarrow> 15 / 100 | Some t \<Rightarrow> t),
                sr_rootMargin = (case opt_rootMargin options of
                                   None \<Rightarrow> ''0px 0px -50px 0px'' | Some m \<Rightarrow> m),
                sr_elements = els, sr_observer = None\<rparr>
      in if hasIntersectionObserver p
         then p\<lparr>revealer := Some (fold observer_observe els (sr\<lparr>sr_observer := Some []\<rparr>))\<rparr>
         else revealAll els (p\<lparr>revealer := Some sr\<rparr>))"

subsection \<open>\<^verbatim>\<open>TextReveal\<close>\<close>

definition new_TextReveal :: "selector \<Rightarrow> page \<Rightarrow> page" where
  \<open>new_TextReveal sel p =
     p\<lparr>elements :=
         fold (\<lambda>i. update_element i
                 (\<lambda>el. el\<lparr>innerHTML_written :=
                     Some (''<span class="text-reveal__inner">'' @ textContent el @ ''</span>'')\<rparr>))
              (querySelectorAll sel (elements p)) (elements p)\<rparr>\<close>

subsection \<open>\<^verbatim>\<open>ScrollProgress\<close>\<close>

definition progress_value :: "real \<Rightarrow> real \<Rightarrow> real \<Rightarrow> real" where
  "progress_value scrollTop scrollHeight' innerHeight' =
     (let docHeight = scrollHeight' - innerHeight'
      in if docHeight > 0 then (scrollTop / docHeight) * 100 else 0)"

definition updateProgress :: "page \<Rightarrow> page" where
  "updateProgress p =
     (case progressBar p of
        None \<Rightarrow> p
      | Some bar \<Rightarrow>
          p\<lparr>elements :=
              update_element bar
                (\<lambda>el. el\<lparr>style_width := Some (progress_value (scrollY p) (scrollHeight p) (innerHeight p))\<rparr>)
                (elements p)\<rparr>)"

definition new_ScrollProgress :: "page \<Rightarrow> page" where
  "new_ScrollProgress p =
     updateProgress
       (p\<lparr>elements := elements p @
             [\<lparr>classes = [''scroll-progress''], dataset = [], textContent = [],
               innerHTML_written = None, style_width = None, style_transform = None\<rparr>],
          progressBar := Some (length (elements p)),
          scroll_listeners := scroll_listeners p @ [UpdateProgress],
          resize_listeners := resize_listeners p @ [UpdateProgress]\<rparr>)"

subsection \<open>\<^verbatim>\<open>ParallaxEffect\<close>\<close>

text \<open>\<^verbatim>\<open>layer.dataset.speed || 0.5\<close>: a missing or empty attribute is falsy.\<close>

definition layer_speed :: "element \<Rightarrow> jsnum" where
  "layer_speed layer =
     (case map_of (dataset layer) ''speed'' of
        None \<Rightarrow> Finite (1 / 2)
      | Some s \<Rightarrow> if s = [] then Finite (1 / 2) else StringToNumber s)"

definition layer_yPos :: "real \<Rightarrow> element \<Rightarrow> jsnum" where
  "layer_yPos scrollY' layer = js_neg (js_mult (Finite scrollY') (layer_speed layer))"

definition updateLayers :: "page \<Rightarrow> page" where
  "updateLayers p =
     (case parallax p of
        None \<Rightarrow> p
      | Some px \<Rightarrow>
          p\<lparr>elements :=
              fold (\<lambda>i. update_element i
                      (\<lambda>layer. layer\<lparr>style_transform := Some (layer_yPos (scrollY p) layer)\<rparr>))
                   (layers px) (elements p)\<rparr>)"

definition onScroll :: "page \<Rightarrow> page" where
  "onScroll p =
     (case parallax p of
        None \<Rightarrow> p
      | Some px \<Rightarrow>
          if \<not> ticking px
          then (requestAnimationFrame ParallaxFrame p)\<lparr>parallax := Some (px\<lparr>ticking := True\<rparr>)\<rparr>
          else p)"

definition parallax_frame :: "page \<Rightarrow> page" where
  "parallax_frame p =
     (let p' = updateLayers p
      in p'\<lparr>parallax := map_option (\<lambda>px. px\<lparr>ticking := False\<rparr>) (parallax p')\<rparr>)"

definition new_ParallaxEffect :: "page \<Rightarrow> page" where
  "new_ParallaxEffect p =
     (let ls = querySelectorAll (HasClass ''parallax-layer'') (elements p);
          p' = p\<lparr>parallax := Some \<lparr>layers = ls, ticking = False\<rparr>\<rparr>
      in if length ls > 0
         then p'\<lparr>scroll_listeners := scroll_listeners p' @ [ParallaxOnScroll]\<rparr>
         else p')"

subsection \<open>The \<^verbatim>\<open>DOMContentLoaded\<close> handler of the reveal script\<close>

text \<open>The branch for reduced motion: two loops that add the class \<^verbatim>\<open>revealed\<close>.\<close>

definition show_everything :: "page \<Rightarrow> page" where
  "show_everything p =
     (let p1 = p\<lparr>elements :=
                  fold (add_class ''revealed'')
                    (querySelectorAll (HasData ''reveal'') (elements p)) (elements p)\<rparr>
      in p1\<lparr>elements :=
             fold (add_class ''revealed'')
               (querySelectorAll (HasClass ''text-reveal'') (elements p1)) (elements p1)\<rparr>)"

definition reveal_startup :: "page \<Rightarrow> page" where
  "reveal_startup p =
     (if \<not> prefersReducedMotion p
      then new_ParallaxEffect
             (new_ScrollProgress
                (new_TextReveal (HasClass ''text-reveal'')
                   (new_ScrollReveals \<lparr>opt_threshold = None, opt_rootMargin = None\<rparr> p)))
      else show_everything p)"

subsection \<open>Window events\<close>

definition run_listener :: "listener \<Rightarrow> page \<Rightarrow> page" where
  "run_listener l p = (case l of UpdateProgress \<Rightarrow> updateProgress p | ParallaxOnScroll \<Rightarrow> onScroll p)"

definition scroll_event :: "real \<Rightarrow> page \<Rightarrow> page" where
  "scroll_event y p = (let p' = p\<lparr>scrollY := y\<rparr> in fold run_listener (scroll_listeners p') p')"

definition resize_event :: "real \<Rightarrow> real \<Rightarrow> page \<Rightarrow> page" where
  "resize_event h sh p =
     (let p' = p\<lparr>innerHeight := h, scrollHeight := sh\<rparr>
      in fold run_listener (resize_listeners p') p')"

subsection \<open>A sample document\<close>

text \<open>
  A revealable block, a text-reveal heading, three parallax layers (no speed, a numeric
  speed, a speed that is not a number) and a counter, in a document 2000 pixels high seen
  through a window of 800 pixels and scrolled by 600.
\<close>

definition sample_page :: page where
  "sample_page =
     \<lparr>elements =
        [\<lparr>classes = [''hero''], dataset = [(''reveal'', [])], textContent = [],
          innerHTML_written = None, style_width = None, style_transform = None\<rparr>,
         \<lparr>classes = [''text-reveal''], dataset = [], textContent = ''Welcome'',
          innerHTML_written = None, style_width = None, style_transform = None\<rparr>,
         \<lparr>classes = [''parallax-layer''], dataset = [], textContent = [],
          innerHTML_written = None, style_width = None, style_transform = None\<rparr>,
         \<lparr>classes = [''parallax-layer''], dataset = [(''speed'', ''0.25'')], textContent = [],
          innerHTML_written = None, style_width = None, style_transform = None\<rparr>,
         \<lparr>classes = [''parallax-layer''], dataset = [(''speed'', ''fast'')], textContent = [],
          innerHTML_written = None, style_width = None, style_transform = None\<rparr>,
         \<lparr>classes = [''stat''],
          dataset = [(''counter'', []), (''target'', ''1000''), (''suffix'', ''+'')],
          textContent = ''0'',
          innerHTML_written = None, style_width = None, style_transform = None\<rparr>],
      hasIntersectionObserver = True, prefersReducedMotion = False,
      scrollY = 600, scrollHeight = 2000, innerHeight = 800, now = 0,
      revealer = None, progressBar = None, parallax = None, counters = [],
      scroll_listeners = [], resize_listeners = [], frame_requests = []\<rparr>"

text \<open>The targets the reveal observer is watching.\<close>

definition observed :: "page \<Rightarrow> nat list" where
  "observed p =
     (case revealer p of
        None \<Rightarrow> []
      | Some sr \<Rightarrow> (case sr_observer sr of None \<Rightarrow> [] | Some obs \<Rightarrow> obs))"

text \<open>
  What the scroll listeners keep of a page \<open>p\<close> scrolled to \<open>y\<close>: the position, the
  two heights and the progress bar.
\<close>

definition scroll_inv :: "real \<Rightarrow> nat \<Rightarrow> page \<Rightarrow> page \<Rightarrow> bool" where
  "scroll_inv y bar p q \<longleftrightarrow>
     scrollY q = y \<and> scrollHeight q = scrollHeight p \<and> innerHeight q = innerHeight p
     \<and> progressBar q = Some bar \<and> bar < length (elements q)"

section \<open>Counter animation (\<^verbatim>\<open>CounterAnimation\<close>)\<close>

datatype error = ReferenceError

definition update_counter ::
    "nat \<Rightarrow> (counterAnimation \<Rightarrow> counterAnimation) \<Rightarrow> page \<Rightarrow> page" where
  "update_counter k f p =
     (if k < length (counters p) then p\<lparr>counters := (counters p)[k := f (counters p ! k)]\<rparr> else p)"

definition set_text :: "nat \<Rightarrow> string \<Rightarrow> page \<Rightarrow> page" where
  "set_text el s p = p\<lparr>elements := update_element el (\<lambda>e. e\<lparr>textContent := s\<rparr>) (elements p)\<rparr>"

text \<open>
  The constructor: \<^verbatim>\<open>parseInt(element.dataset.target) || 0\<close>,
  \<^verbatim>\<open>options.duration || 2000\<close>, then \<^verbatim>\<open>createObserver\<close>, which builds an
  \<^verbatim>\<open>IntersectionObserver\<close> without asking whether the platform has one.
\<close>

definition new_CounterAnimation :: "nat \<Rightarrow> real option \<Rightarrow> page \<Rightarrow> error + page" where
  "new_CounterAnimation el opt_duration p =
     (let c = \<lparr>counter_element = el,
                target = (case parseInt (map_of (dataset (elements p ! el)) ''target'') of
                            None \<Rightarrow> 0 | Some n \<Rightarrow> n),
                duration = (case opt_duration of
                              None \<Rightarrow> 2000 | Some d \<Rightarrow> if d = 0 then 2000 else d),
                started = False, observing = True, startTime = 0\<rparr>
      in if hasIntersectionObserver p then Inr (p\<lparr>counters := counters p @ [c]\<rparr>)
         else Inl ReferenceError)"

definition animate :: "nat \<Rightarrow> page \<Rightarrow> page" where
  "animate k p =
     requestAnimationFrame (CounterFrame k) (update_counter k (\<lambda>c. c\<lparr>startTime := now p\<rparr>) p)"

text \<open>The observer's callback of counter \<open>k\<close> on one entry for its element.\<close>

definition counter_entry :: "nat \<Rightarrow> bool \<Rightarrow> page \<Rightarrow> page" where
  "counter_entry k isIntersecting p =
     (if k < length (counters p) \<and> isIntersecting \<and> \<not> started (counters p ! k)
      then update_counter k (\<lambda>c. c\<lparr>observing := False\<rparr>)
             (animate k (update_counter k (\<lambda>c. c\<lparr>started := True\<rparr>) p))
      else p)"

text \<open>
  The arithmetic of a frame, operation by operation on doubles:
  \<^verbatim>\<open>elapsed = currentTime - startTime\<close>,
  \<^verbatim>\<open>progress = Math.min(elapsed / this.duration, 1)\<close>,
  \<^verbatim>\<open>easeOut = 1 - Math.pow(1 - progress, 3)\<close> and
  \<^verbatim>\<open>current = Math.floor(start + (end - start) * easeOut)\<close> with \<^verbatim>\<open>start = 0\<close>.
\<close>

definition counter_progress :: "counterAnimation \<Rightarrow> real \<Rightarrow> real" where
  "counter_progress c currentTime =
     (let elapsed = fl (currentTime - startTime c)
      in min (fl (elapsed / duration c)) 1)"

definition easeOut :: "real \<Rightarrow> real" where
  "easeOut progress = fl (1 - Math_pow (fl (1 - progress)) 3)"

definition counter_current :: "counterAnimation \<Rightarrow> real \<Rightarrow> int" where
  "counter_current c currentTime =
     \<lfloor>fl (0 + fl (fl (real_of_int (target c) - 0) * easeOut (counter_progress c currentTime)))\<rfloor>"


text \<open>
  The frame callback \<^verbatim>\<open>update\<close>. \<open>toLocaleString\<close> is the host's formatting of an
  integer in its locale.
\<close>

definition update :: "(int \<Rightarrow> string) \<Rightarrow> nat \<Rightarrow> real \<Rightarrow> page \<Rightarrow> page" where
  "update toLocaleString k currentTime p =
     (if k < length (counters p)
      then (let c = counters p ! k;
                el = counter_element c;
                p1 = set_text el (toLocaleString (counter_current c currentTime)) p
            in if counter_progress c currentTime < 1
               then requestAnimationFrame (CounterFrame k) p1
               else (let p2 = set_text el (toLocaleString (target c)) p1;
                         suffix = (case map_of (dataset (elements p2 ! el)) ''suffix'' of
                                     None \<Rightarrow> [] | Some s \<Rightarrow> s)
                     in if suffix \<noteq> []
                        then set_text el (textContent (elements p2 ! el) @ suffix) p2
                        else p2))
      else p)"

text \<open>
  What a frame at \<open>currentTime\<close> leaves on display as a number: the eased value while
  the animation runs, the target once it has finished.
\<close>

definition displayed_value :: "counterAnimation \<Rightarrow> real \<Rightarrow> int" where
  "displayed_value c currentTime =
     (if counter_progress c currentTime < 1 then counter_current c currentTime else target c)"

text \<open>
  The frames a counter runs on the successive timestamps the platform hands to its
  callback: each frame displays a value, and only a frame with progress below 1 asks for
  the next one.
\<close>

fun displayed_values :: "counterAnimation \<Rightarrow> real list \<Rightarrow> int list" where
  "displayed_values c [] = []"
| "displayed_values c (t # ts) =
     displayed_value c t # (if counter_progress c t < 1 then displayed_values c ts else [])"

subsection \<open>Animation frames\<close>

definition run_frame_callback :: "(int \<Rightarrow> string) \<Rightarrow> real \<Rightarrow> frame_callback \<Rightarrow> page \<Rightarrow> page" where
  "run_frame_callback toLocaleString t cb p =
     (case cb of ParallaxFrame \<Rightarrow> parallax_frame p | CounterFrame k \<Rightarrow> update toLocaleString k t p)"

definition animation_frame :: "(int \<Rightarrow> string) \<Rightarrow> real \<Rightarrow> page \<Rightarrow> page" where
  "animation_frame toLocaleString t p =
     fold (run_frame_callback toLocaleString t) (frame_requests p)
       (p\<lparr>frame_requests := [], now := t\<rparr>)"

text \<open>
  The text of counter \<open>k\<close>'s element after each frame in which its callback runs, for
  the timestamps the platform delivers one after the other.
\<close>

fun run_frames :: "(int \<Rightarrow> string) \<Rightarrow> nat \<Rightarrow> real list \<Rightarrow> page \<Rightarrow> string list" where
  "run_frames toLocaleString k [] p = []"
| "run_frames toLocaleString k (t # ts) p =
     (if CounterFrame k \<in> set (frame_requests p)
      then (let p' = animation_frame toLocaleString t p
            in textContent (elements p' ! counter_element (counters p' ! k))
               # run_frames toLocaleString k ts p')
      else [])"

text \<open>The displayed values as text: formatted, the last one followed by the suffix.\<close>

fun displayed_texts :: "(int \<Rightarrow> string) \<Rightarrow> counterAnimation \<Rightarrow> string \<Rightarrow> real list \<Rightarrow> string list" where
  "displayed_texts toLocaleString c suffix [] = []"
| "displayed_texts toLocaleString c suffix (t # ts) =
     (if counter_progress c t < 1
      then toLocaleString (displayed_value c t) # displayed_texts toLocaleString c suffix ts
      else [toLocaleString (displayed_value c t) @ suffix])"

subsection \<open>The counters of the \<^verbatim>\<open>ready\<close> initializer of the application script\<close>

text \<open>
  The initializer builds the page loader, one counter for each \<^verbatim>\<open>[data-counter]\<close>
  element, and the click, submit and interval handlers of the sections below; of these
  only the counters write to the state of \<^typ>\<open>page\<close>. It never reads the reduced-motion
  preference.
\<close>

fun new_counters :: "nat list \<Rightarrow> page \<Rightarrow> error + page" where
  "new_counters [] p = Inr p"
| "new_counters (el # els) p =
     (case new_CounterAnimation el None p of
        Inl e \<Rightarrow> Inl e
      | Inr p' \<Rightarrow> new_counters els p')"

definition app_ready :: "page \<Rightarrow> error + page" where
  "app_ready p = new_counters (querySelectorAll (HasData ''counter'') (elements p)) p"

text \<open>One host formatting: digits in groups of three, as the \<^verbatim>\<open>en-US\<close> locale writes them.\<close>

fun group_digits :: "string \<Rightarrow> string" where
  "group_digits s =
     (if length s \<le> 3 then s
      else group_digits (take (length s - 3) s) @ '','' @ drop (length s - 3) s)"

definition en_US :: "int \<Rightarrow> string" where
  "en_US n = (if n < 0 then ''-'' @ group_digits (string_of_nat (nat (- n)))
              else group_digits (string_of_nat (nat n)))"

text \<open>\<^verbatim>\<open>element.dataset.suffix || ''\<close>.\<close>

definition counter_suffix :: "element \<Rightarrow> string" where
  "counter_suffix el = (case map_of (dataset el) ''suffix'' of None \<Rightarrow> [] | Some s \<Rightarrow> s)"

text \<open>
  The counter the initializer builds for the statistic of the sample document, the same
  counter once its animation has started at time 0, and a counter whose markup gives the
  target \<^verbatim>\<open>-5\<close>.
\<close>

definition idle_counter :: counterAnimation where
  "idle_counter = \<lparr>counter_element = 5, target = 1000, duration = 2000, started = False,
                    observing = True, startTime = 0\<rparr>"

definition running_counter :: counterAnimation where
  "running_counter = idle_counter\<lparr>started := True, observing := False\<rparr>"

definition falling_counter :: counterAnimation where
  "falling_counter = running_counter\<lparr>target := - 5\<rparr>"

text \<open>The sample document on a platform whose user prefers reduced motion.\<close>

definition reduced_page :: page where
  "reduced_page = sample_page\<lparr>prefersReducedMotion := True\<rparr>"

text \<open>The sample document once its counter has come into view at time 0.\<close>

definition counting_page :: page where
  "counting_page = sample_page\<lparr>counters := [running_counter], frame_requests := [CounterFrame 0]\<rparr>"



section \<open>FAQ accordion (\<^verbatim>\<open>initFAQ\<close>)\<close>

text \<open>
  An item is its class list and the element that \<^verbatim>\<open>item.querySelector('.faq-question')\<close>
  returns: the first question among its descendants, or none. The search goes through all
  descendants, so an item that encloses another item can find the question of the inner
  one, and that question then carries a listener for each of the two. Items are told
  apart by their position in the node list, question elements by a number.
\<close>

record faq_item =
  item_classes :: classList
  question :: "nat option"


definition close_others :: "nat \<Rightarrow> faq_item list \<Rightarrow> faq_item list" where
  "close_others i faqItems =
     map (\<lambda>(j, otherItem).
            if j \<noteq> i then otherItem\<lparr>item_classes := classList_remove (item_classes otherItem) ''open''\<rparr>
            else otherItem)
         (enumerate 0 faqItems)"

definition toggle_item :: "nat \<Rightarrow> faq_item list \<Rightarrow> faq_item list" where
  "toggle_item i faqItems =
     (if i < length faqItems
      then faqItems[i := (faqItems ! i)\<lparr>item_classes := classList_toggle (item_classes (faqItems ! i)) ''open''\<rparr>]
      else faqItems)"

text \<open>The listener that \<^verbatim>\<open>initFAQ\<close> registers for item \<open>i\<close>.\<close>

definition item_listener :: "nat \<Rightarrow> faq_item list \<Rightarrow> faq_item list" where
  "item_listener i faqItems = toggle_item i (close_others i faqItems)"

text \<open>
  The listeners on the question element \<open>q\<close>, in the order of their registration,
  which is the order of the items.
\<close>

definition listeners_on :: "nat \<Rightarrow> faq_item list \<Rightarrow> nat list" where
  "listeners_on q faqItems =
     filter (\<lambda>i. question (faqItems ! i) = Some q) [0..<length faqItems]"





section \<open>Form validation (\<^verbatim>\<open>initForms\<close>)\<close>

text \<open>
  A control has a name (or none), its value and the default value a reset restores, the
  \<^verbatim>\<open>required\<close> attribute and a class list. A form lists its controls in document order
  and the inline \<^verbatim>\<open>display\<close> of its \<^verbatim>\<open>.form-success\<close> element when it has one.
\<close>

record control =
  ctl_name :: "string option"
  ctl_value :: string
  ctl_defaultValue :: string
  ctl_required :: bool
  ctl_classes :: classList

record form =
  data_validate :: bool
  controls :: "control list"
  success_display :: "string option option"

record submit_outcome =
  form_after :: form
  defaultPrevented :: bool
  logged :: "(string \<times> string) list option"

definition is_blank :: "control \<Rightarrow> bool" where
  "is_blank input = (trim (ctl_value input) = [])"

definition validate_input :: "control \<Rightarrow> control" where
  "validate_input input =
     (if \<not> ctl_required input then input
      else if is_blank input
      then input\<lparr>ctl_classes := classList_add (ctl_classes input) ''error''\<rparr>
      else input\<lparr>ctl_classes := classList_remove (ctl_classes input) ''error''\<rparr>)"

text \<open>
  The loop over the required inputs: it flags each one and clears \<^verbatim>\<open>isValid\<close> at every
  blank one.
\<close>

fun validate_inputs :: "control list \<Rightarrow> bool \<Rightarrow> bool \<times> control list" where
  "validate_inputs [] isValid = (isValid, [])"
| "validate_inputs (input # inputs) isValid =
     (let r = validate_inputs inputs (if ctl_required input \<and> is_blank input then False else isValid)
      in (fst r, validate_input input # snd r))"

text \<open>\<^verbatim>\<open>new FormData(form)\<close>: the named controls with their values, in order.\<close>

definition control_entry :: "control \<Rightarrow> (string \<times> string) list" where
  "control_entry c = (case ctl_name c of None \<Rightarrow> [] | Some n \<Rightarrow> [(n, ctl_value c)])"

definition formData :: "form \<Rightarrow> (string \<times> string) list" where
  "formData f = concat (map control_entry (controls f))"

text \<open>\<^verbatim>\<open>Object.fromEntries\<close>: a later entry replaces the value of an earlier key.\<close>

fun set_property :: "string \<times> string \<Rightarrow> (string \<times> string) list \<Rightarrow> (string \<times> string) list" where
  "set_property kv [] = [kv]"
| "set_property kv (x # xs) = (if fst x = fst kv then kv # xs else x # set_property kv xs)"

definition fromEntries :: "(string \<times> string) list \<Rightarrow> (string \<times> string) list" where
  "fromEntries entries = fold set_property entries []"

definition reset :: "form \<Rightarrow> form" where
  "reset f = f\<lparr>controls := map (\<lambda>c. c\<lparr>ctl_value := ctl_defaultValue c\<rparr>) (controls f)\<rparr>"

text \<open>
  A submit event on the form. A form without \<^verbatim>\<open>data-validate\<close> has no listener: the
  event keeps its default action and nothing changes.
\<close>

definition submit :: "form \<Rightarrow> submit_outcome" where
  "submit f =
     (if \<not> data_validate f
      then \<lparr>form_after = f, defaultPrevented = False, logged = None\<rparr>
      else (let r = validate_inputs (controls f) True;
                f1 = f\<lparr>controls := snd r\<rparr>
            in if fst r
               then \<lparr>form_after =
                       reset (f1\<lparr>success_display := map_option (\<lambda>d. Some ''block'') (success_display f1)\<rparr>),
                     defaultPrevented = True,
                     logged = Some (fromEntries (formData f1))\<rparr>
               else \<lparr>form_after = f1, defaultPrevented = True, logged = None\<rparr>))"

text \<open>Some required input of the form is blank.\<close>

definition some_blank :: "form \<Rightarrow> bool" where
  "some_blank f = list_ex (\<lambda>c. ctl_required c \<and> is_blank c) (controls f)"

text \<open>
  A validated form with a required name, a required city that the markup fills in with
  \<^verbatim>\<open>Bhakkar\<close>, an optional note and a success message that is not displayed; and the
  same form with only spaces typed into the name.
\<close>

definition contact_form :: form where
  "contact_form =
     \<lparr>data_validate = True,
      controls =
        [\<lparr>ctl_name = Some ''name'', ctl_value = ''Ann'', ctl_defaultValue = [],
          ctl_required = True, ctl_classes = [''field'', ''error'']\<rparr>,
         \<lparr>ctl_name = Some ''city'', ctl_value = ''Multan'', ctl_defaultValue = ''Bhakkar'',
          ctl_required = True, ctl_classes = [''field'']\<rparr>,
         \<lparr>ctl_name = Some ''note'', ctl_value = [], ctl_defaultValue = [],
          ctl_required = False, ctl_classes = [''field'']\<rparr>],
      success_display = Some (Some ''none'')\<rparr>"

definition blank_form :: form where
  "blank_form =
     contact_form\<lparr>controls :=
       (controls contact_form)[0 := (controls contact_form ! 0)\<lparr>ctl_value := ''  '', ctl_classes := [''field'']\<rparr>]\<rparr>"

section \<open>Testimonial carousel (\<^verbatim>\<open>initTestimonialCarousel\<close>)\<close>

text \<open>
  The closure owns \<^verbatim>\<open>currentSlide\<close>; the track's \<^verbatim>\<open>style.transform\<close> and the dots'
  class lists are the DOM state it writes. \<^verbatim>\<open>slides.length\<close> is fixed when the closure
  is built. A slide index is a JavaScript number: \<open>None\<close> stands for \<^verbatim>\<open>NaN\<close>, which
  \<^verbatim>\<open>(currentSlide + 1) % slides.length\<close> yields when there is no slide.
\<close>

record carousel =
  slides_length :: nat
  currentSlide :: "nat option"
  track_transform :: string
  dots :: "classList list"

definition new_dot :: "nat \<Rightarrow> classList" where
  "new_dot index = (if index = 0 then [''testimonial-dot'', ''active''] else [''testimonial-dot''])"

text \<open>
  \<^verbatim>\<open>track\<close> and \<^verbatim>\<open>dotsContainer\<close> are looked up by id; the function returns at once when
  either is missing. \<open>track\<close> gives the number of slides under the track and the
  track's transform, \<open>dotsContainer\<close> the class lists of the dot elements the container
  already holds (the later \<^verbatim>\<open>querySelectorAll('.testimonial-dot')\<close> sees them before the
  created ones).
\<close>

definition initTestimonialCarousel ::
    "(nat \<times> string) option \<Rightarrow> classList list option \<Rightarrow> carousel option" where
  "initTestimonialCarousel track dotsContainer =
     (case track of
        None \<Rightarrow> None
      | Some (n, tr) \<Rightarrow>
          (case dotsContainer of
             None \<Rightarrow> None
           | Some existing \<Rightarrow>
               Some \<lparr>slides_length = n, currentSlide = Some 0, track_transform = tr,
                     dots = existing @ map new_dot [0..<n]\<rparr>))"

definition index_text :: "nat option \<Rightarrow> string" where
  "index_text index = (case index of None \<Rightarrow> ''NaN'' | Some k \<Rightarrow> string_of_nat (k * 100))"

definition goToSlide :: "nat option \<Rightarrow> carousel \<Rightarrow> carousel" where
  "goToSlide index c =
     c\<lparr>currentSlide := index,
       track_transform := ''translateX(-'' @ index_text index @ ''%)'',
       dots := map (\<lambda>(i, dot). classList_toggle_force dot ''active'' (Some i = index))
                 (enumerate 0 (dots c))\<rparr>"

text \<open>The \<^verbatim>\<open>setInterval\<close> callback.\<close>

definition auto_rotate :: "carousel \<Rightarrow> carousel" where
  "auto_rotate c =
     (let next = (case currentSlide c of
                    None \<Rightarrow> None
                  | Some i \<Rightarrow> if slides_length c = 0 then None
                              else Some ((i + 1) mod slides_length c))
      in goToSlide next (c\<lparr>currentSlide := next\<rparr>))"

text \<open>The carousel a page with four slides and an empty dot container starts with.\<close>

definition four_slides :: carousel where
  "four_slides = \<lparr>slides_length = 4, currentSlide = Some 0, track_transform = [],
                  dots = map new_dot [0, 1, 2, 3]\<rparr>"

section \<open>Page loader (\<^verbatim>\<open>PageLoader\<close>)\<close>

datatype readyState = Loading | Interactive | Complete

text \<open>
  The three callbacks the class hands to \<^verbatim>\<open>setTimeout\<close>: the delayed hide of the load
  listener, the guarded hide of the three-second fallback, and the removal of the
  loader element.
\<close>

datatype task = DelayedHide | FallbackHide | RemoveLoader

record pageLoader =
  loader_classes :: classList
  loader_attached :: bool
  load_listener :: bool
  clock :: nat
  timers :: "(nat \<times> task) list"

definition setTimeout :: "task \<Rightarrow> nat \<Rightarrow> pageLoader \<Rightarrow> pageLoader" where
  "setTimeout t delay pl = pl\<lparr>timers := timers pl @ [(clock pl + delay, t)]\<rparr>"

definition hide :: "pageLoader \<Rightarrow> pageLoader" where
  "hide pl =
     setTimeout RemoveLoader 500
       (pl\<lparr>loader_classes := classList_add (loader_classes pl) ''hidden''\<rparr>)"

definition init :: "readyState \<Rightarrow> pageLoader \<Rightarrow> pageLoader" where
  "init rs pl =
     (if rs = Complete then hide pl
      else setTimeout FallbackHide 3000 (pl\<lparr>load_listener := True\<rparr>))"

text \<open>
  The constructor looks the loader up and initialises only when the page has one;
  \<open>None\<close> is a page without a \<^verbatim>\<open>.page-loader\<close> element.
\<close>

definition new_PageLoader :: "readyState \<Rightarrow> pageLoader option \<Rightarrow> pageLoader option" where
  "new_PageLoader rs loader = map_option (init rs) loader"

text \<open>The window's load event, delivered at time \<open>t\<close>.\<close>

definition load_event :: "nat \<Rightarrow> pageLoader \<Rightarrow> pageLoader" where
  "load_event t pl =
     (let pl' = pl\<lparr>clock := max (clock pl) t\<rparr>
      in if load_listener pl' then setTimeout DelayedHide 500 pl' else pl')"

definition run_task :: "task \<Rightarrow> pageLoader \<Rightarrow> pageLoader" where
  "run_task t pl =
     (case t of
        DelayedHide \<Rightarrow> hide pl
      | FallbackHide \<Rightarrow>
          if \<not> classList_contains (loader_classes pl) ''hidden'' then hide pl else pl
      | RemoveLoader \<Rightarrow> pl\<lparr>loader_attached := False\<rparr>)"

text \<open>
  The event loop fires the pending timer that is due first, the one registered first
  among equals, and goes on until none is pending.
\<close>

fun earliest :: "(nat \<times> task) list \<Rightarrow> (nat \<times> task) option" where
  "earliest [] = None"
| "earliest (t # ts) =
     (case earliest ts of
        None \<Rightarrow> Some t
      | Some u \<Rightarrow> if fst t \<le> fst u then Some t else Some u)"

definition task_weight :: "nat \<times> task \<Rightarrow> nat" where
  "task_weight t = (if snd t = RemoveLoader then 1 else 2)"

definition fire :: "nat \<times> task \<Rightarrow> pageLoader \<Rightarrow> pageLoader" where
  "fire t pl =
     run_task (snd t) (pl\<lparr>clock := max (clock pl) (fst t), timers := remove1 t (timers pl)\<rparr>)"

lemma earliest_mem: "earliest ts = Some t \<Longrightarrow> t \<in> set ts"
  by (induction ts arbitrary: t) (auto split: option.splits if_splits)

lemma earliest_None: "earliest ts = None \<longleftrightarrow> ts = []"
  by (cases ts) (auto split: option.splits)

lemma timers_fire_weight:
  assumes "t \<in> set (timers pl)"
  shows "sum_list (map task_weight (timers (fire t pl))) < sum_list (map task_weight (timers pl))"
proof -
  have split: "sum_list (map task_weight (timers pl)) =
      task_weight t + sum_list (map task_weight (remove1 t (timers pl)))"
    using assms by (rule sum_list_map_remove1)
  show ?thesis
    by (cases t; cases "snd t")
       (simp_all add: split fire_def run_task_def hide_def setTimeout_def task_weight_def)
qed

function run_timers :: "pageLoader \<Rightarrow> pageLoader" where
  "run_timers pl =
     (case earliest (timers pl) of
        None \<Rightarrow> pl
      | Some t \<Rightarrow> run_timers (fire t pl))"
  by pat_completeness auto
termination
  by (relation "measure (\<lambda>pl. sum_list (map task_weight (timers pl)))")
     (auto dest: earliest_mem intro: timers_fire_weight)

declare run_timers.simps [simp del]

text \<open>
  A loader is bound to leave the document when it already has, or when a pending timer
  is a removal or an unguarded hide.
\<close>

definition detaches :: "pageLoader \<Rightarrow> bool" where
  "detaches pl \<longleftrightarrow> \<not> loader_attached pl \<or> (\<exists>t \<in> set (timers pl). snd t \<noteq> FallbackHide)"

text \<open>A loader as the page first shows it.\<close>

definition fresh_loader :: pageLoader where
  "fresh_loader = \<lparr>loader_classes = [''page-loader''], loader_attached = True,
                    load_listener = False, clock = 0, timers = []\<rparr>"

section \<open>Properties of the class lists\<close>

lemma classList_add_idem: "classList_add (classList_add cl c) c = classList_add cl c"
  by (simp add: classList_add_def)

lemma classList_add_mem: "c \<in> set (classList_add cl c)"
  by (simp add: classList_add_def)

lemma classList_add_present: "c \<in> set cl \<Longrightarrow> classList_add cl c = cl"
  by (simp add: classList_add_def)

section \<open>Properties of the document\<close>

lemma length_update_element [simp]: "length (update_element i f els) = length els"
  by (simp add: update_element_def)

lemma nth_update_element:
  "j < length els \<Longrightarrow> update_element i f els ! j = (if j = i then f (els ! j) else els ! j)"
  by (simp add: update_element_def)

lemma fold_update_element:
  assumes "distinct ls"
  shows "length (fold (\<lambda>i. update_element i f) ls els) = length els
       \<and> (\<forall>j < length els. fold (\<lambda>i. update_element i f) ls els ! j
              = (if j \<in> set ls then f (els ! j) else els ! j))"
  using assms
proof (induction ls arbitrary: els)
  case Nil
  then show ?case by simp
next
  case (Cons i ls)
  then have IH: "length (fold (\<lambda>i. update_element i f) ls (update_element i f els)) = length els
       \<and> (\<forall>j < length els. fold (\<lambda>i. update_element i f) ls (update_element i f els) ! j
              = (if j \<in> set ls then f (update_element i f els ! j) else update_element i f els ! j))"
    using Cons.IH [of "update_element i f els"] by simp
  have "i \<notin> set ls" using Cons.prems by simp
  then show ?case using IH by (auto simp: nth_update_element)
qed

lemma querySelectorAll_distinct: "distinct (querySelectorAll sel els)"
  by (simp add: querySelectorAll_def)

lemma querySelectorAll_mem:
  "i \<in> set (querySelectorAll sel els) \<longleftrightarrow> i < length els \<and> matches sel (els ! i)"
  by (auto simp: querySelectorAll_def)

lemmas number_defs = StringToNumber_def trim_def is_ws_def radix_literal_def
  unsigned_decimal_def exponent_part_def all_digits_def is_digit_def digit_value_def
  digits_value_def scale10_def js_neg_def js_mult_def Let_def

section \<open>Rounding to a double\<close>

lemmas fl_eval = fl_def binade_def pow2_def rne_def Let_def ilog2.simps

lemma rne_lower: "\<lfloor>r\<rfloor> \<le> rne r"
  by (simp add: rne_def Let_def)

lemma rne_upper: "rne r \<le> \<lfloor>r\<rfloor> + 1"
  by (simp add: rne_def Let_def)

lemma rne_of_int [simp]: "rne (of_int n) = n"
  by (simp add: rne_def Let_def)

lemma rne_mono: "r \<le> s \<Longrightarrow> rne r \<le> rne s"
proof -
  assume rs: "r \<le> s"
  then have fg: "\<lfloor>r\<rfloor> \<le> \<lfloor>s\<rfloor>" by (rule floor_mono)
  show ?thesis
  proof (cases "\<lfloor>r\<rfloor> = \<lfloor>s\<rfloor>")
    case True
    then show ?thesis using rs by (auto simp: rne_def Let_def)
  next
    case False
    then have "\<lfloor>r\<rfloor> + 1 \<le> \<lfloor>s\<rfloor>" using fg by simp
    then show ?thesis using rne_upper [of r] rne_lower [of s] by linarith
  qed
qed

lemma rne_ge: "of_int n \<le> r \<Longrightarrow> n \<le> rne r"
  using rne_mono [of "of_int n" r] by simp

lemma rne_le: "r \<le> of_int n \<Longrightarrow> rne r \<le> n"
  using rne_mono [of r "of_int n"] by simp

lemma pow2_pos [simp]: "0 < pow2 k"
  by (simp add: pow2_def)

lemma pow2_powr: "pow2 k = (2::real) powr (of_int k)"
proof (cases "0 \<le> k")
  case True
  then show ?thesis by (simp add: pow2_def powr_realpow [symmetric])
next
  case False
  then have "(2::real) powr (of_int k) = 1 / 2 powr (of_int (- k))"
    by (simp add: powr_minus_divide)
  also have "\<dots> = 1 / 2 ^ nat (- k)"
    using False by (simp add: powr_realpow [symmetric])
  finally show ?thesis using False by (simp add: pow2_def)
qed

lemma pow2_add: "pow2 (a + b) = pow2 a * pow2 b"
  by (simp add: pow2_powr powr_add)

lemma pow2_mono: "a \<le> b \<Longrightarrow> pow2 a \<le> pow2 b"
  by (simp add: pow2_powr)

lemma pow2_less_cancel: "pow2 a < pow2 b \<Longrightarrow> a < b"
  by (simp add: pow2_powr)

lemma ilog2_bounds: "0 < n \<Longrightarrow> 2 ^ ilog2 n \<le> n \<and> n < 2 ^ Suc (ilog2 n)"
proof (induction n rule: ilog2.induct)
  case (1 n)
  show ?case
  proof (cases "n < 2")
    case True
    then show ?thesis using "1.prems" by (simp add: ilog2.simps)
  next
    case False
    then have "0 < n div 2" by simp
    from "1.IH" [OF False this] have "2 ^ ilog2 (n div 2) \<le> n div 2" "n div 2 < 2 ^ Suc (ilog2 (n div 2))"
      by simp_all
    then have "2 * 2 ^ ilog2 (n div 2) \<le> n" "n < 2 * 2 ^ Suc (ilog2 (n div 2))"
      by linarith+
    then show ?thesis using False by (simp add: ilog2.simps [of n])
  qed
qed

lemma binade_bounds:
  assumes "0 < a"
  shows "pow2 (binade a) \<le> a \<and> a < pow2 (binade a + 1)"
proof (cases "1 \<le> a")
  case True
  let ?n = "nat \<lfloor>a\<rfloor>"
  have n: "0 < ?n" using True by simp
  have "0 \<le> \<lfloor>a\<rfloor>" using True by simp
  then have rn: "real ?n = of_int \<lfloor>a\<rfloor>" by simp
  have near: "real ?n \<le> a" "a < real ?n + 1" unfolding rn by linarith+
  from ilog2_bounds [OF n] have b: "2 ^ ilog2 ?n \<le> ?n" "?n + 1 \<le> 2 ^ Suc (ilog2 ?n)" by simp_all
  have "real (2 ^ ilog2 ?n) \<le> real ?n"
    using b(1) by (rule of_nat_mono)
  then have lo: "(2::real) ^ ilog2 ?n \<le> real ?n" by simp
  have "real (?n + 1) \<le> real (2 ^ Suc (ilog2 ?n))"
    using b(2) by (rule of_nat_mono)
  then have hi: "real ?n + 1 \<le> (2::real) ^ Suc (ilog2 ?n)" by simp
  have k: "binade a = int (ilog2 ?n)" using True by (simp add: binade_def)
  have "pow2 (binade a) = 2 ^ ilog2 ?n"
    by (simp add: k pow2_def)
  moreover have "pow2 (binade a + 1) = 2 ^ Suc (ilog2 ?n)"
    by (simp add: k pow2_def nat_add_distrib)
  ultimately show ?thesis using lo hi near by linarith
next
  case False
  let ?y = "1 / a"
  let ?m = "nat (\<lceil>?y\<rceil> - 1)"
  have y: "1 < ?y" using False assms by simp
  then have c: "2 \<le> \<lceil>?y\<rceil>" by linarith
  then have m: "0 < ?m" by simp
  have "0 \<le> \<lceil>?y\<rceil> - 1" using c by linarith
  then have "real ?m = of_int (\<lceil>?y\<rceil> - 1)" by (rule of_nat_nat)
  then have rm: "real ?m = of_int \<lceil>?y\<rceil> - 1" by simp
  have my: "real ?m < ?y" "?y \<le> real ?m + 1" unfolding rm by linarith+
  from ilog2_bounds [OF m] have b: "2 ^ ilog2 ?m \<le> ?m" "?m + 1 \<le> 2 ^ Suc (ilog2 ?m)" by simp_all
  have "real (2 ^ ilog2 ?m) \<le> real ?m"
    using b(1) by (rule of_nat_mono)
  then have lo: "(2::real) ^ ilog2 ?m \<le> real ?m" by simp
  have "real (?m + 1) \<le> real (2 ^ Suc (ilog2 ?m))"
    using b(2) by (rule of_nat_mono)
  then have hi: "real ?m + 1 \<le> (2::real) ^ Suc (ilog2 ?m)" by simp
  have "(2::real) ^ ilog2 ?m < 1 / a" using lo my(1) by linarith
  then have up: "a < 1 / 2 ^ ilog2 ?m"
    using assms by (simp add: field_simps)
  have "1 / a \<le> (2::real) ^ Suc (ilog2 ?m)" using hi my(2) by linarith
  then have down: "1 / 2 ^ Suc (ilog2 ?m) \<le> a"
    using assms by (simp add: field_simps)
  have k: "binade a = - int (Suc (ilog2 ?m))" using False by (simp add: binade_def)
  have "nat (int (ilog2 ?m) + 1) = Suc (ilog2 ?m)" by simp
  then have "pow2 (binade a) = 1 / 2 ^ Suc (ilog2 ?m)"
    by (simp add: k pow2_def del: power_Suc)
  moreover have "pow2 (binade a + 1) = 1 / 2 ^ ilog2 ?m"
    by (simp add: k pow2_def)
  ultimately show ?thesis using up down by linarith
qed

lemma binade_mono:
  assumes "0 < a" and "a \<le> b"
  shows "binade a \<le> binade b"
proof -
  have "pow2 (binade a) \<le> a" using binade_bounds [OF assms(1)] by simp
  also have "a \<le> b" by fact
  also have "b < pow2 (binade b + 1)" using binade_bounds [of b] assms by simp
  finally have "binade a < binade b + 1" by (rule pow2_less_cancel)
  then show ?thesis by simp
qed

lemma pow2_nonneg [simp]: "0 \<le> pow2 k"
  by (simp add: pow2_def)

lemma fl_0 [simp]: "fl 0 = 0"
  by (simp add: fl_def)

lemma fl_1 [simp]: "fl 1 = 1"
  by (simp add: fl_eval)

lemma fl_scaled:
  "x \<noteq> 0 \<Longrightarrow> fl x = of_int (rne (x / pow2 (binade \<bar>x\<bar> - 52))) * pow2 (binade \<bar>x\<bar> - 52)"
  by (simp add: fl_def Let_def)

lemma pow2_split: "pow2 k = pow2 (k - 52) * 2 ^ 52"
proof -
  have "pow2 k = pow2 ((k - 52) + 52)" by simp
  also have "\<dots> = pow2 (k - 52) * pow2 52" by (rule pow2_add)
  finally show ?thesis by (simp add: pow2_def)
qed

text \<open>A positive number rounds into the closed binade it lies in.\<close>

lemma fl_pos_bounds:
  assumes "0 < x"
  shows "pow2 (binade x) \<le> fl x \<and> fl x \<le> pow2 (binade x + 1)"
proof -
  let ?e = "binade x - 52"
  have b: "pow2 (binade x) \<le> x" "x < pow2 (binade x + 1)"
    using binade_bounds [OF assms] by simp_all
  have s1: "pow2 (binade x) = pow2 ?e * 2 ^ 52" by (rule pow2_split)
  have s2: "pow2 (binade x + 1) = pow2 ?e * 2 ^ 53"
    using pow2_split [of "binade x + 1"] pow2_add [of "binade x - 52" 1]
    by (simp add: pow2_def algebra_simps)
  have "of_int (2 ^ 52) \<le> x / pow2 ?e"
    using b(1) s1 by (simp add: field_simps)
  then have lo: "2 ^ 52 \<le> rne (x / pow2 ?e)" by (rule rne_ge)
  have "x / pow2 ?e \<le> of_int (2 ^ 53)"
    using b(2) s2 by (simp add: field_simps)
  then have hi: "rne (x / pow2 ?e) \<le> 2 ^ 53" by (rule rne_le)
  have f: "fl x = of_int (rne (x / pow2 ?e)) * pow2 ?e"
    using assms by (simp add: fl_scaled)
  have "(2::real) ^ 52 \<le> of_int (rne (x / pow2 ?e))"
    using lo by (metis of_int_le_iff of_int_numeral of_int_power)
  then have "2 ^ 52 * pow2 ?e \<le> of_int (rne (x / pow2 ?e)) * pow2 ?e"
    by (intro mult_right_mono) simp_all
  moreover have "of_int (rne (x / pow2 ?e)) \<le> (2::real) ^ 53"
    using hi by (metis of_int_le_iff of_int_numeral of_int_power)
  then have "of_int (rne (x / pow2 ?e)) * pow2 ?e \<le> 2 ^ 53 * pow2 ?e"
    by (intro mult_right_mono) simp_all
  ultimately show ?thesis using f s1 s2 by (simp add: mult.commute)
qed

lemma fl_neg_bounds:
  assumes "x < 0"
  shows "- pow2 (binade (- x) + 1) \<le> fl x \<and> fl x \<le> - pow2 (binade (- x))"
proof -
  let ?e = "binade (- x) - 52"
  have pos: "0 < - x" using assms by simp
  have b: "pow2 (binade (- x)) \<le> - x" "- x < pow2 (binade (- x) + 1)"
    using binade_bounds [OF pos] by simp_all
  have s1: "pow2 (binade (- x)) = pow2 ?e * 2 ^ 52" by (rule pow2_split)
  have s2: "pow2 (binade (- x) + 1) = pow2 ?e * 2 ^ 53"
    using pow2_split [of "binade (- x) + 1"] pow2_add [of "binade (- x) - 52" 1]
    by (simp add: pow2_def algebra_simps)
  have "x / pow2 ?e \<le> of_int (- (2 ^ 52))"
    using b(1) s1 by (simp add: field_simps)
  then have hi: "rne (x / pow2 ?e) \<le> - (2 ^ 52)" by (rule rne_le)
  have "of_int (- (2 ^ 53)) \<le> x / pow2 ?e"
    using b(2) s2 by (simp add: field_simps)
  then have lo: "- (2 ^ 53) \<le> rne (x / pow2 ?e)" by (rule rne_ge)
  have f: "fl x = of_int (rne (x / pow2 ?e)) * pow2 ?e"
    using assms by (simp add: fl_scaled abs_if)
  have "of_int (rne (x / pow2 ?e)) \<le> - ((2::real) ^ 52)"
    using hi by (metis of_int_le_iff of_int_minus of_int_numeral of_int_power)
  then have "of_int (rne (x / pow2 ?e)) * pow2 ?e \<le> - (2 ^ 52) * pow2 ?e"
    by (intro mult_right_mono) simp_all
  moreover have "- ((2::real) ^ 53) \<le> of_int (rne (x / pow2 ?e))"
    using lo by (metis of_int_le_iff of_int_minus of_int_numeral of_int_power)
  then have "- (2 ^ 53) * pow2 ?e \<le> of_int (rne (x / pow2 ?e)) * pow2 ?e"
    by (intro mult_right_mono) simp_all
  ultimately show ?thesis using f s1 s2 by (simp add: mult.commute)
qed

lemma fl_mono_pos:
  assumes "0 < x" and "x \<le> y"
  shows "fl x \<le> fl y"
proof -
  have y: "0 < y" using assms by simp
  have k: "binade x \<le> binade y" using assms by (rule binade_mono)
  show ?thesis
  proof (cases "binade x = binade y")
    case True
    let ?e = "binade x - 52"
    have "x / pow2 ?e \<le> y / pow2 ?e" using assms(2) by (intro divide_right_mono) simp_all
    then have "rne (x / pow2 ?e) \<le> rne (y / pow2 ?e)" by (rule rne_mono)
    then have "of_int (rne (x / pow2 ?e)) * pow2 ?e \<le> of_int (rne (y / pow2 ?e)) * pow2 ?e"
      by (intro mult_right_mono) simp_all
    then show ?thesis using assms(1) y True by (simp add: fl_scaled)
  next
    case False
    then have "binade x + 1 \<le> binade y" using k by simp
    then have "pow2 (binade x + 1) \<le> pow2 (binade y)" by (rule pow2_mono)
    then show ?thesis
      using fl_pos_bounds [OF assms(1)] fl_pos_bounds [OF y] by linarith
  qed
qed

lemma fl_mono_neg:
  assumes "y < 0" and "x \<le> y"
  shows "fl x \<le> fl y"
proof -
  have x: "x < 0" using assms by simp
  have k: "binade (- y) \<le> binade (- x)" using assms by (intro binade_mono) simp_all
  show ?thesis
  proof (cases "binade (- x) = binade (- y)")
    case True
    let ?e = "binade (- x) - 52"
    have "x / pow2 ?e \<le> y / pow2 ?e" using assms(2) by (intro divide_right_mono) simp_all
    then have "rne (x / pow2 ?e) \<le> rne (y / pow2 ?e)" by (rule rne_mono)
    then have "of_int (rne (x / pow2 ?e)) * pow2 ?e \<le> of_int (rne (y / pow2 ?e)) * pow2 ?e"
      by (intro mult_right_mono) simp_all
    then show ?thesis using assms(1) x True by (simp add: fl_scaled abs_if)
  next
    case False
    then have "binade (- y) + 1 \<le> binade (- x)" using k by simp
    then have "pow2 (binade (- y) + 1) \<le> pow2 (binade (- x))" by (rule pow2_mono)
    then show ?thesis
      using fl_neg_bounds [OF assms(1)] fl_neg_bounds [OF x] by linarith
  qed
qed

lemma fl_nonneg: "0 \<le> x \<Longrightarrow> 0 \<le> fl x"
proof (cases "x = 0")
  case False
  assume "0 \<le> x"
  then have "0 < x" using False by simp
  from fl_pos_bounds [OF this] show ?thesis
    using pow2_pos [of "binade x"] by linarith
qed simp

lemma fl_nonpos: "x \<le> 0 \<Longrightarrow> fl x \<le> 0"
proof (cases "x = 0")
  case False
  assume "x \<le> 0"
  then have "x < 0" using False by simp
  from fl_neg_bounds [OF this] show ?thesis
    using pow2_pos [of "binade (- x)"] by linarith
qed simp

lemma fl_mono: "x \<le> y \<Longrightarrow> fl x \<le> fl y"
proof -
  assume xy: "x \<le> y"
  consider "0 < x" | "y < 0" | "x \<le> 0" "0 \<le> y" by linarith
  then show ?thesis
  proof cases
    case 1
    then show ?thesis using xy by (rule fl_mono_pos)
  next
    case 2
    then show ?thesis using xy by (rule fl_mono_neg)
  next
    case 3
    then show ?thesis using fl_nonpos [of x] fl_nonneg [of y] by linarith
  qed
qed

text \<open>Rounding a double gives it back.\<close>

lemma binade_unique:
  assumes "0 < a" and "pow2 k \<le> a" and "a < pow2 (k + 1)"
  shows "binade a = k"
proof -
  have b: "pow2 (binade a) \<le> a" "a < pow2 (binade a + 1)"
    using binade_bounds [OF assms(1)] by simp_all
  have "pow2 k < pow2 (binade a + 1)" using assms(2) b(2) by linarith
  then have "k < binade a + 1" by (rule pow2_less_cancel)
  moreover have "pow2 (binade a) < pow2 (k + 1)" using assms(3) b(1) by linarith
  then have "binade a < k + 1" by (rule pow2_less_cancel)
  ultimately show ?thesis by simp
qed

lemma pow2_double: "pow2 (k + 1) = 2 * pow2 k"
  using pow2_add [of k 1] by (simp add: pow2_def)

lemma fl_grid:
  assumes "y \<noteq> 0" and "binade \<bar>y\<bar> = k" and "y = of_int m * pow2 (k - 52)"
  shows "fl y = y"
proof -
  have "pow2 (k - 52) \<noteq> 0" by (metis less_irrefl pow2_pos)
  then have "y / pow2 (k - 52) = of_int m" using assms(3) by simp
  then have "rne (y / pow2 (k - 52)) = m" by (simp only: rne_of_int)
  then show ?thesis using assms by (simp add: fl_scaled)
qed

lemma fl_idem_pos:
  assumes "0 < x"
  shows "fl (fl x) = fl x"
proof -
  let ?k = "binade x"
  let ?m = "rne (x / pow2 (?k - 52))"
  have f: "fl x = of_int ?m * pow2 (?k - 52)" using assms by (simp add: fl_scaled)
  have b: "pow2 ?k \<le> fl x" "fl x \<le> pow2 (?k + 1)"
    using fl_pos_bounds [OF assms] by simp_all
  have pos: "0 < fl x" using b(1) pow2_pos [of ?k] by linarith
  show ?thesis
  proof (cases "fl x < pow2 (?k + 1)")
    case True
    have k: "binade \<bar>fl x\<bar> = ?k"
      using pos b(1) True by (simp add: binade_unique)
    have nz: "fl x \<noteq> 0" using pos by simp
    show ?thesis by (rule fl_grid [OF nz k f])
  next
    case False
    then have top: "fl x = pow2 (?k + 1)" using b(2) by simp
    have "pow2 (?k + 1) < pow2 (?k + 1 + 1)"
      using pow2_double [of "?k + 1"] pow2_pos [of "?k + 1"] by linarith
    then have k: "binade \<bar>fl x\<bar> = ?k + 1"
      using pos top by (intro binade_unique) simp_all
    have "pow2 (?k + 1) = pow2 (?k + 1 - 52) * 2 ^ 52" by (rule pow2_split)
    then have g: "fl x = of_int (2 ^ 52) * pow2 (?k + 1 - 52)"
      using top by (simp add: mult.commute)
    have nz: "fl x \<noteq> 0" using pos by simp
    show ?thesis by (rule fl_grid [OF nz k g])
  qed
qed

lemma fl_idem_neg:
  assumes "x < 0"
  shows "fl (fl x) = fl x"
proof -
  let ?k = "binade (- x)"
  let ?m = "rne (x / pow2 (?k - 52))"
  have f: "fl x = of_int ?m * pow2 (?k - 52)" using assms by (simp add: fl_scaled abs_if)
  have b: "- pow2 (?k + 1) \<le> fl x" "fl x \<le> - pow2 ?k"
    using fl_neg_bounds [OF assms] by simp_all
  have neg: "fl x < 0" using b(2) pow2_pos [of ?k] by linarith
  then have a: "\<bar>fl x\<bar> = - fl x" by simp
  show ?thesis
  proof (cases "- pow2 (?k + 1) < fl x")
    case True
    have k: "binade \<bar>fl x\<bar> = ?k"
      unfolding a using neg b(2) True by (intro binade_unique) simp_all
    have nz: "fl x \<noteq> 0" using neg by simp
    show ?thesis by (rule fl_grid [OF nz k f])
  next
    case False
    then have top: "fl x = - pow2 (?k + 1)" using b(1) by simp
    have "pow2 (?k + 1) < pow2 (?k + 1 + 1)"
      using pow2_double [of "?k + 1"] pow2_pos [of "?k + 1"] by linarith
    then have k: "binade \<bar>fl x\<bar> = ?k + 1"
      unfolding a using neg top by (intro binade_unique) simp_all
    have "pow2 (?k + 1) = pow2 (?k + 1 - 52) * 2 ^ 52" by (rule pow2_split)
    then have g: "fl x = of_int (- (2 ^ 52)) * pow2 (?k + 1 - 52)"
      using top by (simp add: mult.commute)
    have nz: "fl x \<noteq> 0" using neg by simp
    show ?thesis by (rule fl_grid [OF nz k g])
  qed
qed

lemma fl_idem: "fl (fl x) = fl x"
proof -
  consider "0 < x" | "x < 0" | "x = 0" by linarith
  then show ?thesis
    by cases (simp_all add: fl_idem_pos fl_idem_neg)
qed

lemma is_double_fl: "is_double (fl x)"
  by (simp add: is_double_def fl_idem)

text \<open>Integers below \<open>2\<^sup>5\<^sup>3\<close> in absolute value are doubles.\<close>

lemma pow2_nonpos: "e \<le> 0 \<Longrightarrow> pow2 e = 1 / 2 ^ nat (- e)"
  by (cases "e = 0") (simp_all add: pow2_def)

lemma fl_of_int:
  assumes "\<bar>n\<bar> < 2 ^ 53"
  shows "fl (of_int n) = of_int n"
proof (cases "n = 0")
  case True
  then show ?thesis by simp
next
  case False
  let ?x = "real_of_int n"
  let ?k = "binade \<bar>?x\<bar>"
  have pos: "0 < \<bar>?x\<bar>" using False by simp
  have "\<bar>?x\<bar> < of_int (2 ^ 53)" using assms by (metis of_int_abs of_int_less_iff)
  then have "\<bar>?x\<bar> < pow2 53" by (simp add: pow2_def)
  moreover have "pow2 ?k \<le> \<bar>?x\<bar>" using binade_bounds [OF pos] by simp
  ultimately have "pow2 ?k < pow2 53" by linarith
  then have "?k < 53" by (rule pow2_less_cancel)
  then have e: "?k - 52 \<le> 0" by simp
  let ?j = "nat (- (?k - 52))"
  have p: "pow2 (?k - 52) = 1 / 2 ^ ?j" using e by (rule pow2_nonpos)
  have "?x / pow2 (?k - 52) = of_int (n * 2 ^ ?j)" by (simp add: p)
  then have "rne (?x / pow2 (?k - 52)) = n * 2 ^ ?j" by (simp only: rne_of_int)
  then have "fl ?x = of_int (n * 2 ^ ?j) * pow2 (?k - 52)"
    using False by (simp add: fl_scaled)
  then show ?thesis by (simp add: p)
qed

lemma is_double_of_int: "\<bar>n\<bar> < 2 ^ 53 \<Longrightarrow> is_double (of_int n)"
  by (simp add: is_double_def fl_of_int)

lemma fl_numeral [simp]: "numeral w < (2::int) ^ 53 \<Longrightarrow> fl (numeral w) = numeral w"
  using fl_of_int [of "numeral w"] by simp

lemma fl_neg_numeral [simp]: "numeral w < (2::int) ^ 53 \<Longrightarrow> fl (- numeral w) = - numeral w"
  using fl_of_int [of "- numeral w"] by simp

lemma fl_halves: "fl (1 / 2) = 1 / 2" "fl (1 / 8) = 1 / 8" "fl (7 / 8) = 7 / 8"
  by (simp_all add: fl_eval)

text \<open>The double nearest to an integer is an integer, so \<^verbatim>\<open>parseInt\<close> returns a double.\<close>

lemma fl_of_int_integer: "\<exists>z. fl (of_int n) = of_int z"
proof (cases "\<bar>n\<bar> < 2 ^ 53")
  case True
  then show ?thesis using fl_of_int by blast
next
  case False
  let ?x = "real_of_int n"
  let ?k = "binade \<bar>?x\<bar>"
  have nz: "n \<noteq> 0" using False by auto
  then have pos: "0 < \<bar>?x\<bar>" by simp
  have "(2::int) ^ 53 \<le> \<bar>n\<bar>" using False by simp
  then have "of_int (2 ^ 53) \<le> \<bar>?x\<bar>" by (metis of_int_abs of_int_le_iff)
  then have "pow2 53 \<le> \<bar>?x\<bar>" by (simp add: pow2_def)
  moreover have "\<bar>?x\<bar> < pow2 (?k + 1)" using binade_bounds [OF pos] by simp
  ultimately have "pow2 53 < pow2 (?k + 1)" by linarith
  then have "53 < ?k + 1" by (rule pow2_less_cancel)
  then have "pow2 (?k - 52) = of_int (2 ^ nat (?k - 52))" by (simp add: pow2_def)
  then have "fl ?x = of_int (rne (?x / pow2 (?k - 52)) * 2 ^ nat (?k - 52))"
    using nz by (simp add: fl_scaled)
  then show ?thesis by blast
qed

lemma parseInt_is_double: "parseInt arg = Some n \<Longrightarrow> is_double (of_int n)"
proof -
  assume a: "parseInt arg = Some n"
  have r: "n = \<lfloor>fl (of_int v)\<rfloor>"
    if eq: "(if c then None else Some \<lfloor>fl (real_of_int v)\<rfloor>) = Some n" for c v
    using eq by (simp split: if_splits)
  from a [unfolded parseInt_def Let_def] obtain v where n: "n = \<lfloor>fl (of_int v)\<rfloor>"
    by (blast dest: r)
  obtain z where z: "fl (of_int v) = of_int z" using fl_of_int_integer by blast
  then have "real_of_int n = fl (of_int v)" using n by simp
  then show ?thesis by (simp add: is_double_def fl_idem)
qed

section \<open>The scroll progress bar\<close>

lemma run_listener_inv: "scroll_inv y bar p q \<Longrightarrow> scroll_inv y bar p (run_listener l q)"
  by (cases l)
     (auto simp: scroll_inv_def run_listener_def updateProgress_def onScroll_def
        requestAnimationFrame_def split: option.splits)

lemma run_listener_width:
  assumes "scroll_inv y bar p q"
    and "l = UpdateProgress \<or> style_width (elements q ! bar) = Some v"
    and "v = progress_value y (scrollHeight p) (innerHeight p)"
  shows "style_width (elements (run_listener l q) ! bar) = Some v"
  using assms
  by (cases l)
     (auto simp: scroll_inv_def run_listener_def updateProgress_def onScroll_def
        requestAnimationFrame_def nth_update_element split: option.splits)

lemma fold_listeners_width:
  assumes "scroll_inv y bar p q"
    and "UpdateProgress \<in> set ls \<or> style_width (elements q ! bar) = Some v"
    and "v = progress_value y (scrollHeight p) (innerHeight p)"
  shows "style_width (elements (fold run_listener ls q) ! bar) = Some v"
  using assms
proof (induction ls arbitrary: q)
  case Nil
  then show ?case by simp
next
  case (Cons l ls)
  have inv: "scroll_inv y bar p (run_listener l q)"
    using Cons.prems(1) by (rule run_listener_inv)
  show ?case
  proof (cases "l = UpdateProgress \<or> style_width (elements q ! bar) = Some v")
    case True
    then have "style_width (elements (run_listener l q) ! bar) = Some v"
      using Cons.prems(1,3) by (intro run_listener_width)
    then show ?thesis using Cons.IH [OF inv _ Cons.prems(3)] by simp
  next
    case False
    then have "UpdateProgress \<in> set ls" using Cons.prems(2) by auto
    then show ?thesis using Cons.IH [OF inv _ Cons.prems(3)] by simp
  qed
qed

lemma scroll_event_width:
  assumes "progressBar p = Some bar" and "bar < length (elements p)"
    and "UpdateProgress \<in> set (scroll_listeners p)"
  shows "style_width (elements (scroll_event y p) ! bar)
         = Some (progress_value y (scrollHeight p) (innerHeight p))"
proof -
  have "scroll_inv y bar p (p\<lparr>scrollY := y\<rparr>)"
    using assms by (simp add: scroll_inv_def)
  then show ?thesis
    using assms(3) fold_listeners_width [of y bar p "p\<lparr>scrollY := y\<rparr>" "scroll_listeners p"]
    by (simp add: scroll_event_def)
qed

lemma sample_progress:
  "progressBar (new_ScrollProgress sample_page) = Some 6
   \<and> length (elements (new_ScrollProgress sample_page)) = 7
   \<and> scroll_listeners (new_ScrollProgress sample_page) = [UpdateProgress]
   \<and> scrollHeight (new_ScrollProgress sample_page) = 2000
   \<and> innerHeight (new_ScrollProgress sample_page) = 800"
  by (simp add: new_ScrollProgress_def sample_page_def updateProgress_def update_element_def)

text \<open>
  Claim C3. \<^verbatim>\<open>updateProgress\<close> writes the width
  \<open>scrollTop / (scrollHeight - innerHeight) * 100\<close> percent when the denominator is
  positive and 0 when it is not, and a scroll event to any position \<open>y\<close> leaves the bar
  with the width of that position. A document 2000 high in a window 800 high, scrolled
  by 600, gives 50.
\<close>

theorem scroll_progress_width:
  assumes "progressBar p = Some bar" and "bar < length (elements p)"
  shows "style_width (elements (updateProgress p) ! bar)
           = Some (if scrollHeight p - innerHeight p > 0
                   then scrollY p / (scrollHeight p - innerHeight p) * 100 else 0)
       \<and> (scrollHeight p - innerHeight p \<le> 0 \<longrightarrow>
            style_width (elements (updateProgress p) ! bar) = Some 0)
       \<and> (UpdateProgress \<in> set (scroll_listeners p) \<longrightarrow>
            style_width (elements (scroll_event y p) ! bar)
              = Some (if scrollHeight p - innerHeight p > 0
                      then y / (scrollHeight p - innerHeight p) * 100 else 0))
       \<and> progress_value 600 2000 800 = 50"
  using assms scroll_event_width [OF assms, of y]
  by (simp add: updateProgress_def nth_update_element progress_value_def)

theorem scroll_progress_width_witness:
  "style_width (elements (updateProgress (new_ScrollProgress sample_page)) ! 6) = Some 50
   \<and> style_width (elements (scroll_event 300 (new_ScrollProgress sample_page)) ! 6) = Some 25
   \<and> style_width (elements (updateProgress
        ((new_ScrollProgress sample_page)\<lparr>scrollHeight := 700\<rparr>)) ! 6) = Some 0"
proof -
  have bar: "progressBar (new_ScrollProgress sample_page) = Some 6"
    and len: "6 < length (elements (new_ScrollProgress sample_page))"
    by (simp_all add: sample_progress)
  have y: "scrollY (new_ScrollProgress sample_page) = 600"
    by (simp add: new_ScrollProgress_def sample_page_def updateProgress_def)
  have bar': "progressBar ((new_ScrollProgress sample_page)\<lparr>scrollHeight := 700\<rparr>) = Some 6"
    and len': "6 < length (elements ((new_ScrollProgress sample_page)\<lparr>scrollHeight := 700\<rparr>))"
    by (simp_all add: sample_progress)
  show ?thesis
    using scroll_progress_width [OF bar len, of 300] scroll_progress_width [OF bar' len', of 0]
    by (simp add: sample_progress y)
qed

section \<open>The parallax layers\<close>

lemma updateLayers_transform:
  assumes "parallax p = Some px" and "distinct (layers px)" and "i \<in> set (layers px)"
    and "i < length (elements p)"
  shows "style_transform (elements (updateLayers p) ! i)
         = Some (layer_yPos (scrollY p) (elements p ! i))"
  using assms
    fold_update_element [OF assms(2),
      of "\<lambda>layer. layer\<lparr>style_transform := Some (layer_yPos (scrollY p) layer)\<rparr>" "elements p"]
  by (simp add: updateLayers_def)

lemma sample_layers:
  "querySelectorAll (HasClass ''parallax-layer'') (elements sample_page) = [2, 3, 4]"
  by (simp add: querySelectorAll_def sample_page_def matches_def classList_contains_def)

lemma sample_parallax:
  "parallax (new_ParallaxEffect sample_page) = Some \<lparr>layers = [2, 3, 4], ticking = False\<rparr>
   \<and> elements (new_ParallaxEffect sample_page) = elements sample_page
   \<and> scrollY (new_ParallaxEffect sample_page) = 600"
  by (simp add: new_ParallaxEffect_def sample_layers Let_def) (simp add: sample_page_def)

text \<open>
  Claim C7, as the code has it. \<^verbatim>\<open>updateLayers\<close> gives every layer the vertical offset
  \<open>- (scrollY * speed)\<close>. The speed is 0.5 when the \<^verbatim>\<open>data-speed\<close> attribute is missing or
  empty; any other attribute value is used as it is, coerced to a number by the
  multiplication.
\<close>

theorem parallax_translation:
  assumes "parallax p = Some px" and "distinct (layers px)" and "i \<in> set (layers px)"
    and "i < length (elements p)"
  shows "style_transform (elements (updateLayers p) ! i)
           = Some (js_neg (js_mult (Finite (scrollY p)) (layer_speed (elements p ! i))))
       \<and> (map_of (dataset (elements p ! i)) ''speed'' = None
            \<or> map_of (dataset (elements p ! i)) ''speed'' = Some [] \<longrightarrow>
          layer_speed (elements p ! i) = Finite (1 / 2)
          \<and> style_transform (elements (updateLayers p) ! i) = Some (Finite (- (scrollY p * (1 / 2)))))
       \<and> (\<forall>s. map_of (dataset (elements p ! i)) ''speed'' = Some s \<and> s \<noteq> [] \<longrightarrow>
            layer_speed (elements p ! i) = StringToNumber s)"
  using updateLayers_transform [OF assms]
  by (auto simp: layer_yPos_def layer_speed_def js_neg_def js_mult_def)

theorem parallax_translation_witness:
  "style_transform (elements (updateLayers (new_ParallaxEffect sample_page)) ! 2) = Some (Finite (- 300))
   \<and> style_transform (elements (updateLayers (new_ParallaxEffect sample_page)) ! 3) = Some (Finite (- 150))"
proof -
  have px: "parallax (new_ParallaxEffect sample_page) = Some \<lparr>layers = [2, 3, 4], ticking = False\<rparr>"
    by (simp add: sample_parallax)
  have d: "distinct (layers \<lparr>layers = [2, 3, 4], ticking = False\<rparr>)" by simp
  have m2: "2 \<in> set (layers \<lparr>layers = [2, 3, 4], ticking = False\<rparr>)"
    and m3: "3 \<in> set (layers \<lparr>layers = [2, 3, 4], ticking = False\<rparr>)" by simp_all
  have l2: "2 < length (elements (new_ParallaxEffect sample_page))"
    and l3: "3 < length (elements (new_ParallaxEffect sample_page))"
    by (simp_all add: sample_parallax) (simp_all add: sample_page_def)
  have s2: "layer_speed (elements sample_page ! 2) = Finite (1 / 2)"
    by (simp add: sample_page_def layer_speed_def)
  have s3: "layer_speed (elements sample_page ! 3) = Finite (1 / 4)"
    by (simp add: sample_page_def layer_speed_def number_defs)
  show ?thesis
    using parallax_translation [OF px d m2 l2] parallax_translation [OF px d m3 l3]
    by (simp add: sample_parallax s2 s3 js_neg_def js_mult_def)
qed

text \<open>
  A speed that is not a number is not replaced by 0.5: the layer with
  \<^verbatim>\<open>data-speed="fast"\<close> gets the offset \<^verbatim>\<open>NaN\<close>, not \<open>- (600 * 0.5)\<close>.
\<close>

theorem parallax_invalid_speed_counterexample:
  "map_of (dataset (elements sample_page ! 4)) ''speed'' = Some ''fast''
   \<and> StringToNumber ''fast'' = NaN
   \<and> layer_speed (elements sample_page ! 4) \<noteq> Finite (1 / 2)
   \<and> style_transform (elements (updateLayers (new_ParallaxEffect sample_page)) ! 4) = Some NaN
   \<and> style_transform (elements (updateLayers (new_ParallaxEffect sample_page)) ! 4)
       \<noteq> Some (Finite (- (600 * (1 / 2))))"
proof -
  have a: "map_of (dataset (elements sample_page ! 4)) ''speed'' = Some ''fast''"
    by (simp add: sample_page_def)
  have b: "StringToNumber ''fast'' = NaN"
    by (simp add: number_defs)
  have c: "layer_speed (elements sample_page ! 4) = NaN"
    using a b by (simp add: layer_speed_def)
  have d: "style_transform (elements (updateLayers (new_ParallaxEffect sample_page)) ! 4) = Some NaN"
    using updateLayers_transform [of "new_ParallaxEffect sample_page"
        "\<lparr>layers = [2, 3, 4], ticking = False\<rparr>" 4]
    by (simp add: sample_parallax layer_yPos_def c js_neg_def js_mult_def)
       (simp add: sample_page_def)
  from a b c d show ?thesis by simp
qed

section \<open>Reveal on intersection\<close>

lemma add_class_idem: "add_class c i (add_class c i els) = add_class c i els"
  by (simp add: add_class_def update_element_def classList_add_idem)

lemma add_class_length [simp]: "length (add_class c i els) = length els"
  by (simp add: add_class_def)

lemma add_class_has:
  "i < length els \<Longrightarrow> classList_contains (classes (add_class c i els ! i)) c"
  by (simp add: add_class_def nth_update_element classList_contains_def classList_add_mem)

lemma add_class_keeps:
  "j < length els \<Longrightarrow> classList_contains (classes (els ! j)) c \<Longrightarrow>
   classList_contains (classes (add_class c i els ! j)) c"
  by (simp add: add_class_def nth_update_element classList_contains_def classList_add_def)

lemma fold_add_class:
  "length (fold (add_class c) ls els) = length els
   \<and> (\<forall>j < length els. j \<in> set ls \<or> classList_contains (classes (els ! j)) c \<longrightarrow>
        classList_contains (classes (fold (add_class c) ls els ! j)) c)"
proof (induction ls arbitrary: els)
  case Nil
  then show ?case by simp
next
  case (Cons i ls)
  show ?case
    using Cons.IH [of "add_class c i els"]
    by (auto simp: add_class_has add_class_keeps)
qed

lemma fold_observe_set:
  "sr_observer sr = Some obs \<Longrightarrow>
   \<exists>obs'. sr_observer (fold observer_observe els sr) = Some obs' \<and> set obs' = set obs \<union> set els"
proof (induction els arbitrary: sr obs)
  case Nil
  then show ?case by simp
next
  case (Cons el els)
  have "sr_observer (observer_observe el sr) = Some (if el \<in> set obs then obs else obs @ [el])"
    using Cons.prems by (simp add: observer_observe_def)
  from Cons.IH [OF this] show ?case by auto
qed

lemma new_ScrollReveals_observed:
  assumes "hasIntersectionObserver p"
  shows "set (observed (new_ScrollReveals options p))
         = set (querySelectorAll (HasData ''reveal'') (elements p))"
    and "elements (new_ScrollReveals options p) = elements p"
proof -
  let ?els = "querySelectorAll (HasData ''reveal'') (elements p)"
  let ?sr = "\<lparr>sr_threshold = (case opt_threshold options of None \<Rightarrow> 15 / 100 | Some t \<Rightarrow> t),
              sr_rootMargin = (case opt_rootMargin options of
                                 None \<Rightarrow> ''0px 0px -50px 0px'' | Some m \<Rightarrow> m),
              sr_elements = ?els, sr_observer = Some []\<rparr>"
  obtain obs' where "sr_observer (fold observer_observe ?els ?sr) = Some obs'" "set obs' = set ?els"
    using fold_observe_set [of ?sr "[]" ?els] by auto
  then show "set (observed (new_ScrollReveals options p)) = set ?els"
    using assms by (simp add: new_ScrollReveals_def observed_def Let_def)
  show "elements (new_ScrollReveals options p) = elements p"
    using assms by (simp add: new_ScrollReveals_def Let_def)
qed

lemma reveal_entry_effect:
  assumes "el < length (elements p)"
  shows "classList_contains (classes (elements (reveal_callback [(el, True)] p) ! el)) ''revealed''"
    and "el \<notin> set (observed (reveal_callback [(el, True)] p))"
    and "reveal_callback [(el, True)] (reveal_callback [(el, True)] p) = reveal_callback [(el, True)] p"
proof -
  show "classList_contains (classes (elements (reveal_callback [(el, True)] p) ! el)) ''revealed''"
    using assms
    by (simp add: reveal_callback_def reveal_entry_def revealElement_def Let_def add_class_has)
  show "el \<notin> set (observed (reveal_callback [(el, True)] p))"
    by (auto simp: reveal_callback_def reveal_entry_def revealElement_def Let_def observed_def
          unobserve_def split: option.splits)
  show "reveal_callback [(el, True)] (reveal_callback [(el, True)] p) = reveal_callback [(el, True)] p"
    by (cases "revealer p")
       (simp_all add: reveal_callback_def reveal_entry_def revealElement_def Let_def add_class_idem
          unobserve_def option.map_comp comp_def)
qed

lemma fold_revealElement_elements:
  "elements (fold revealElement els p) = fold (add_class ''revealed'') els (elements p)"
  by (induction els arbitrary: p) (simp_all add: revealElement_def)

lemma new_ScrollReveals_fallback:
  assumes "\<not> hasIntersectionObserver p"
    and "el \<in> set (querySelectorAll (HasData ''reveal'') (elements p))"
  shows "classList_contains (classes (elements (new_ScrollReveals options p) ! el)) ''revealed''"
proof -
  have "el < length (elements p)" using assms(2) by (simp add: querySelectorAll_mem)
  then show ?thesis
    using assms
      fold_add_class [of "''revealed''" "querySelectorAll (HasData ''reveal'') (elements p)" "elements p"]
    by (simp add: new_ScrollReveals_def Let_def revealAll_def fold_revealElement_elements)
qed

lemma sample_revealable:
  "querySelectorAll (HasData ''reveal'') (elements sample_page) = [0]"
  by (simp add: querySelectorAll_def sample_page_def matches_def)

text \<open>
  Claim C2. Let \<open>el\<close> be an element marked \<^verbatim>\<open>data-reveal\<close>. Where the platform has
  \<^verbatim>\<open>IntersectionObserver\<close>, the constructor puts \<open>el\<close> under observation; the callback
  on an intersecting entry for \<open>el\<close> gives it the class \<^verbatim>\<open>revealed\<close> and takes it out
  of observation; the same entry once more changes nothing, and an entry that does not
  intersect changes nothing either. Where the platform lacks it, the constructor gives
  \<open>el\<close> the class at once.
\<close>

theorem reveal_fire_once:
  assumes "el \<in> set (querySelectorAll (HasData ''reveal'') (elements p))"
  shows "(hasIntersectionObserver p \<longrightarrow>
            el \<in> set (observed (new_ScrollReveals options p))
          \<and> classList_contains
              (classes (elements (reveal_callback [(el, True)] (new_ScrollReveals options p)) ! el))
              ''revealed''
          \<and> el \<notin> set (observed (reveal_callback [(el, True)] (new_ScrollReveals options p)))
          \<and> reveal_callback [(el, True)]
              (reveal_callback [(el, True)] (new_ScrollReveals options p))
            = reveal_callback [(el, True)] (new_ScrollReveals options p)
          \<and> reveal_callback [(el, False)] (new_ScrollReveals options p)
            = new_ScrollReveals options p)
       \<and> (\<not> hasIntersectionObserver p \<longrightarrow>
            classList_contains (classes (elements (new_ScrollReveals options p) ! el)) ''revealed'')"
proof -
  have len: "el < length (elements p)" using assms by (simp add: querySelectorAll_mem)
  have idle: "reveal_callback [(el, False)] q = q" for q
    by (simp add: reveal_callback_def reveal_entry_def)
  show ?thesis
  proof (cases "hasIntersectionObserver p")
    case True
    then have "el < length (elements (new_ScrollReveals options p))"
      using len by (simp add: new_ScrollReveals_observed)
    then show ?thesis
      using True assms reveal_entry_effect [of el "new_ScrollReveals options p"] idle
      by (simp add: new_ScrollReveals_observed)
  next
    case False
    then show ?thesis using assms by (simp add: new_ScrollReveals_fallback)
  qed
qed

theorem reveal_fire_once_witness:
  "0 \<in> set (observed (new_ScrollReveals \<lparr>opt_threshold = None, opt_rootMargin = None\<rparr> sample_page))
   \<and> classList_contains
       (classes (elements (reveal_callback [(0, True)]
          (new_ScrollReveals \<lparr>opt_threshold = None, opt_rootMargin = None\<rparr> sample_page)) ! 0))
       ''revealed''
   \<and> 0 \<notin> set (observed (reveal_callback [(0, True)]
          (new_ScrollReveals \<lparr>opt_threshold = None, opt_rootMargin = None\<rparr> sample_page)))
   \<and> classList_contains
       (classes (elements (new_ScrollReveals \<lparr>opt_threshold = None, opt_rootMargin = None\<rparr>
          (sample_page\<lparr>hasIntersectionObserver := False\<rparr>)) ! 0))
       ''revealed''"
proof -
  have m1: "0 \<in> set (querySelectorAll (HasData ''reveal'') (elements sample_page))"
    by (simp add: sample_revealable)
  have m2: "0 \<in> set (querySelectorAll (HasData ''reveal'')
      (elements (sample_page\<lparr>hasIntersectionObserver := False\<rparr>)))"
    by (simp add: sample_revealable)
  have yes: "hasIntersectionObserver sample_page" by (simp add: sample_page_def)
  show ?thesis
    using reveal_fire_once [OF m1, of "\<lparr>opt_threshold = None, opt_rootMargin = None\<rparr>"]
          reveal_fire_once [OF m2, of "\<lparr>opt_threshold = None, opt_rootMargin = None\<rparr>"] yes
    by simp
qed

section \<open>Reduced motion\<close>

lemma add_class_only_classes:
  "j < length els \<Longrightarrow> (add_class c i els ! j)\<lparr>classes := classes (els ! j)\<rparr> = els ! j"
  by (simp add: add_class_def nth_update_element)

lemma add_class_grows:
  "j < length els \<Longrightarrow> c' \<in> set (classes (els ! j)) \<Longrightarrow>
   c' \<in> set (classes (add_class c i els ! j))"
  by (auto simp: add_class_def nth_update_element classList_add_def)

lemma reclass: "x\<lparr>classes := a\<rparr> = y \<Longrightarrow> x\<lparr>classes := b\<rparr> = y\<lparr>classes := b\<rparr>"
  by (drule arg_cong [where f = "\<lambda>e. e\<lparr>classes := b\<rparr>"]) simp

lemma fold_add_class_only_classes:
  "j < length els \<Longrightarrow> (fold (add_class c) ls els ! j)\<lparr>classes := classes (els ! j)\<rparr> = els ! j"
proof (induction ls arbitrary: els)
  case Nil
  then show ?case by simp
next
  case (Cons i ls)
  have "(fold (add_class c) ls (add_class c i els) ! j)\<lparr>classes := classes (add_class c i els ! j)\<rparr>
        = add_class c i els ! j"
    using Cons.prems by (intro Cons.IH) simp
  then have "(fold (add_class c) ls (add_class c i els) ! j)\<lparr>classes := classes (els ! j)\<rparr>
        = (add_class c i els ! j)\<lparr>classes := classes (els ! j)\<rparr>"
    by (rule reclass)
  then show ?case using Cons.prems by (simp add: add_class_only_classes)
qed

lemma fold_add_class_grows:
  "j < length els \<Longrightarrow> c' \<in> set (classes (els ! j)) \<Longrightarrow>
   c' \<in> set (classes (fold (add_class c) ls els ! j))"
proof (induction ls arbitrary: els)
  case Nil
  then show ?case by simp
next
  case (Cons i ls)
  then show ?case by (simp add: add_class_grows)
qed

lemma fold_add_class_length [simp]: "length (fold (add_class c) ls els) = length els"
  by (simp add: fold_add_class)

lemma fold_add_class_matches:
  assumes "j < length els" and "matches sel (els ! j)"
  shows "matches sel (fold (add_class c) ls els ! j)"
proof (cases sel)
  case (HasData k)
  have "dataset (fold (add_class c) ls els ! j)
        = dataset ((fold (add_class c) ls els ! j)\<lparr>classes := classes (els ! j)\<rparr>)"
    by simp
  also have "\<dots> = dataset (els ! j)"
    using assms(1) by (simp only: fold_add_class_only_classes)
  finally show ?thesis using assms(2) HasData by (simp add: matches_def)
next
  case (HasClass k)
  then show ?thesis
    using assms fold_add_class_grows [of j els k c ls]
    by (simp add: matches_def classList_contains_def)
qed

lemma reveal_startup_reduced:
  "prefersReducedMotion p \<Longrightarrow> reveal_startup p = show_everything p"
  by (simp add: reveal_startup_def)

lemma show_everything_page:
  "show_everything p = p\<lparr>elements := elements (show_everything p)\<rparr>"
  by (simp add: show_everything_def Let_def)

lemma show_everything_revealed:
  assumes "el \<in> set (querySelectorAll sel (elements p))"
    and "sel = HasData ''reveal'' \<or> sel = HasClass ''text-reveal''"
  shows "classList_contains (classes (elements (show_everything p) ! el)) ''revealed''"
proof -
  let ?q1 = "querySelectorAll (HasData ''reveal'') (elements p)"
  let ?els1 = "fold (add_class ''revealed'') ?q1 (elements p)"
  let ?q2 = "querySelectorAll (HasClass ''text-reveal'') ?els1"
  have len: "el < length (elements p)" and m: "matches sel (elements p ! el)"
    using assms(1) by (simp_all add: querySelectorAll_mem)
  have len1: "el < length ?els1" using len by simp
  show ?thesis
  proof (cases "sel = HasData ''reveal''")
    case True
    then have "classList_contains (classes (?els1 ! el)) ''revealed''"
      using assms(1) len fold_add_class [of "''revealed''" ?q1 "elements p"] by simp
    then show ?thesis
      using len1 fold_add_class [of "''revealed''" ?q2 ?els1]
      by (simp add: show_everything_def Let_def)
  next
    case False
    then have sel: "sel = HasClass ''text-reveal''" using assms(2) by simp
    have "matches sel (?els1 ! el)"
      using len m by (rule fold_add_class_matches)
    then have "el \<in> set ?q2" using len1 sel by (simp add: querySelectorAll_mem)
    then show ?thesis
      using len1 fold_add_class [of "''revealed''" ?q2 ?els1]
      by (simp add: show_everything_def Let_def)
  qed
qed

lemma show_everything_only_classes:
  "length (elements (show_everything p)) = length (elements p)"
  "j < length (elements p) \<Longrightarrow>
   (elements (show_everything p) ! j)\<lparr>classes := classes (elements p ! j)\<rparr> = elements p ! j"
proof -
  let ?q1 = "querySelectorAll (HasData ''reveal'') (elements p)"
  let ?els1 = "fold (add_class ''revealed'') ?q1 (elements p)"
  let ?q2 = "querySelectorAll (HasClass ''text-reveal'') ?els1"
  show "length (elements (show_everything p)) = length (elements p)"
    by (simp add: show_everything_def Let_def)
  assume j: "j < length (elements p)"
  then have "(fold (add_class ''revealed'') ?q2 ?els1 ! j)\<lparr>classes := classes (?els1 ! j)\<rparr>
      = ?els1 ! j"
    by (intro fold_add_class_only_classes) simp
  then have "(fold (add_class ''revealed'') ?q2 ?els1 ! j)\<lparr>classes := classes (elements p ! j)\<rparr>
      = (?els1 ! j)\<lparr>classes := classes (elements p ! j)\<rparr>"
    by (rule reclass)
  then show "(elements (show_everything p) ! j)\<lparr>classes := classes (elements p ! j)\<rparr>
      = elements p ! j"
    using j by (simp add: show_everything_def Let_def fold_add_class_only_classes)
qed


lemma parseInt_1000: "parseInt (Some ''1000'') = Some 1000"
  by (simp add: parseInt_def number_defs)

lemma reduced_startup:
  "reveal_startup reduced_page =
     reduced_page\<lparr>elements := (elements sample_page)
       [0 := (elements sample_page ! 0)\<lparr>classes := [''hero'', ''revealed'']\<rparr>,
        1 := (elements sample_page ! 1)\<lparr>classes := [''text-reveal'', ''revealed'']\<rparr>]\<rparr>"
  by (simp add: reveal_startup_def show_everything_def reduced_page_def Let_def)
     (simp add: sample_page_def querySelectorAll_def matches_def add_class_def update_element_def
        classList_add_def classList_contains_def)

lemma en_US_875: "en_US 875 = ''875''"
  by (simp add: en_US_def digit_char_def)

lemma en_US_1000: "en_US 1000 = ''1,000''"
  by (simp add: en_US_def digit_char_def)

text \<open>
  Claim C6, as the code has it. When the reduced-motion preference holds as the reveal
  script starts, the script builds none of its components: it gives every
  \<^verbatim>\<open>data-reveal\<close> and every \<^verbatim>\<open>text-reveal\<close> element the class \<^verbatim>\<open>revealed\<close> at once,
  changes nothing else than class lists, requests no animation frame and registers no
  scroll listener, so that a later scroll requests none either.
\<close>

theorem reduced_motion_static:
  assumes "prefersReducedMotion p"
  shows "(\<forall>el \<in> set (querySelectorAll (HasData ''reveal'') (elements p)).
            classList_contains (classes (elements (reveal_startup p) ! el)) ''revealed'')
       \<and> (\<forall>el \<in> set (querySelectorAll (HasClass ''text-reveal'') (elements p)).
            classList_contains (classes (elements (reveal_startup p) ! el)) ''revealed'')
       \<and> reveal_startup p = p\<lparr>elements := elements (reveal_startup p)\<rparr>
       \<and> length (elements (reveal_startup p)) = length (elements p)
       \<and> (\<forall>j < length (elements p).
            (elements (reveal_startup p) ! j)\<lparr>classes := classes (elements p ! j)\<rparr> = elements p ! j)
       \<and> frame_requests (reveal_startup p) = frame_requests p
       \<and> scroll_listeners (reveal_startup p) = scroll_listeners p
       \<and> (scroll_listeners p = [] \<longrightarrow>
            frame_requests (scroll_event y (reveal_startup p)) = frame_requests p)"
proof -
  have page: "reveal_startup p = p\<lparr>elements := elements (reveal_startup p)\<rparr>"
    using assms show_everything_page [of p] by (simp add: reveal_startup_reduced)
  have same: "frame_requests (reveal_startup p) = frame_requests p"
      "scroll_listeners (reveal_startup p) = scroll_listeners p"
    by (subst page, simp)+
  have "scroll_listeners p = [] \<longrightarrow>
      frame_requests (scroll_event y (reveal_startup p)) = frame_requests p"
    using same by (simp add: scroll_event_def)
  then show ?thesis
    using assms page same
    by (simp add: reveal_startup_reduced show_everything_revealed show_everything_only_classes)
qed

theorem reduced_motion_static_witness:
  "prefersReducedMotion reduced_page
   \<and> classes (elements (reveal_startup reduced_page) ! 0) = [''hero'', ''revealed'']
   \<and> classList_contains (classes (elements (reveal_startup reduced_page) ! 0)) ''revealed''
   \<and> classList_contains (classes (elements (reveal_startup reduced_page) ! 1)) ''revealed''
   \<and> frame_requests (scroll_event 900 (reveal_startup reduced_page)) = []"
proof -
  have pref: "prefersReducedMotion reduced_page"
    by (simp add: reduced_page_def)
  have q: "querySelectorAll (HasData ''reveal'') (elements reduced_page) = [0]"
      "querySelectorAll (HasClass ''text-reveal'') (elements reduced_page) = [1]"
    by (simp_all add: reduced_page_def querySelectorAll_def sample_page_def matches_def
          classList_contains_def)
  have none: "scroll_listeners reduced_page = []" "frame_requests reduced_page = []"
    by (simp_all add: reduced_page_def sample_page_def)
  have cls: "classes (elements (reveal_startup reduced_page) ! 0) = [''hero'', ''revealed'']"
    by (simp add: reduced_startup) (simp add: sample_page_def)
  show ?thesis
    using reduced_motion_static [OF pref, of 900] q none cls pref by simp
qed

text \<open>
  The counters of the application script are not bypassed. On the sample document with
  reduced motion, both scripts having started, the counter that comes into view requests
  an animation frame, and the frame at one second writes the eased value 875.
\<close>

theorem reduced_motion_counter_counterexample:
  "prefersReducedMotion reduced_page
   \<and> app_ready (reveal_startup reduced_page)
       = Inr ((reveal_startup reduced_page)\<lparr>counters := [idle_counter]\<rparr>)
   \<and> frame_requests (counter_entry 0 True ((reveal_startup reduced_page)\<lparr>counters := [idle_counter]\<rparr>))
       = [CounterFrame 0]
   \<and> textContent (elements (animation_frame en_US 1000
        (counter_entry 0 True ((reveal_startup reduced_page)\<lparr>counters := [idle_counter]\<rparr>))) ! 5)
       = ''875''
   \<and> frame_requests (animation_frame en_US 1000
        (counter_entry 0 True ((reveal_startup reduced_page)\<lparr>counters := [idle_counter]\<rparr>)))
       = [CounterFrame 0]"
proof -
  let ?p = "reveal_startup reduced_page"
  let ?q = "counter_entry 0 True (?p\<lparr>counters := [idle_counter]\<rparr>)"
  have pref: "prefersReducedMotion reduced_page"
    by (simp add: reduced_page_def)
  have query: "querySelectorAll (HasData ''counter'') (elements ?p) = [5]"
    by (simp add: reduced_startup)
       (simp add: querySelectorAll_def sample_page_def matches_def)
  have target: "map_of (dataset (elements ?p ! 5)) ''target'' = Some ''1000''"
    by (simp add: reduced_startup) (simp add: sample_page_def)
  have io: "hasIntersectionObserver ?p" "counters ?p = []"
    by (simp_all add: reduced_startup) (simp_all add: reduced_page_def sample_page_def)
  have ready: "app_ready ?p = Inr (?p\<lparr>counters := [idle_counter]\<rparr>)"
    using io target
    by (simp add: app_ready_def query new_CounterAnimation_def parseInt_1000 idle_counter_def)
  have entry: "?q = ?p\<lparr>counters := [running_counter], frame_requests := [CounterFrame 0]\<rparr>"
    by (simp add: counter_entry_def animate_def update_counter_def requestAnimationFrame_def
          idle_counter_def running_counter_def reduced_startup)
       (simp add: reduced_page_def sample_page_def)
  have half: "counter_progress running_counter 1000 = 1 / 2"
    by (simp add: counter_progress_def running_counter_def idle_counter_def)
       (simp add: fl_eval)
  have eased: "easeOut (1 / 2) = 7 / 8"
    by (simp add: easeOut_def Math_pow_def power3_eq_cube fl_eval)
  have exact: "fl 1000 = 1000" "fl 875 = 875"
    by (simp_all add: fl_eval)
  have goal: "target running_counter = 1000"
    by (simp add: running_counter_def idle_counter_def)
  have current: "counter_current running_counter 1000 = 875"
    by (simp add: counter_current_def half eased goal exact)
  have frame: "animation_frame en_US 1000 ?q
      = requestAnimationFrame (CounterFrame 0)
          (set_text 5 ''875'' (?p\<lparr>counters := [running_counter], frame_requests := [], now := 1000\<rparr>))"
    by (simp add: entry animation_frame_def run_frame_callback_def update_def half current
          en_US_875 Let_def)
       (simp add: running_counter_def idle_counter_def)
  have len: "5 < length (elements ?p)"
    by (simp add: reduced_startup) (simp add: sample_page_def)
  have shown: "textContent (elements (animation_frame en_US 1000 ?q) ! 5) = ''875''"
    using len by (simp add: frame requestAnimationFrame_def set_text_def nth_update_element)
  have again: "frame_requests (animation_frame en_US 1000 ?q) = [CounterFrame 0]"
    by (simp add: frame requestAnimationFrame_def set_text_def)
  have first: "frame_requests ?q = [CounterFrame 0]"
    by (simp add: entry)
  from pref ready first shown again show ?thesis by simp
qed

section \<open>The counter animation\<close>

subsection \<open>One frame\<close>

lemma set_text_nth:
  "el < length (elements p) \<Longrightarrow>
   elements (set_text el s p) ! el = (elements p ! el)\<lparr>textContent := s\<rparr>"
  by (simp add: set_text_def nth_update_element)

lemma set_text_other [simp]:
  "frame_requests (set_text el s p) = frame_requests p"
  "counters (set_text el s p) = counters p"
  "length (elements (set_text el s p)) = length (elements p)"
  by (simp_all add: set_text_def)

lemma update_text:
  assumes "k < length (counters p)" and "c = counters p ! k"
    and "counter_element c < length (elements p)"
  shows "textContent (elements (update toLocaleString k t p) ! counter_element c)
         = (if counter_progress c t < 1 then toLocaleString (counter_current c t)
            else toLocaleString (target c) @ counter_suffix (elements p ! counter_element c))"
    and "frame_requests (update toLocaleString k t p)
         = (if counter_progress c t < 1 then frame_requests p @ [CounterFrame k]
            else frame_requests p)"
    and "counters (update toLocaleString k t p) = counters p"
    and "length (elements (update toLocaleString k t p)) = length (elements p)"
    and "counter_suffix (elements (update toLocaleString k t p) ! counter_element c)
         = counter_suffix (elements p ! counter_element c)"
  using assms
  by (auto simp: update_def Let_def requestAnimationFrame_def set_text_nth counter_suffix_def
        split: option.splits)

lemma easeOut_half: "easeOut (1 / 2) = 7 / 8"
  by (simp add: easeOut_def Math_pow_def power3_eq_cube fl_halves)


lemma animation_frame_single:
  "frame_requests p = [CounterFrame k] \<Longrightarrow>
   animation_frame toLocaleString t p
   = update toLocaleString k t (p\<lparr>frame_requests := [], now := t\<rparr>)"
  by (simp add: animation_frame_def run_frame_callback_def)

text \<open>
  The texts of the frames a counter runs are those of its displayed values: the eased
  values while the progress is below 1, then the target with the suffix, and no frame
  after that one.
\<close>

lemma run_frames_texts:
  assumes "frame_requests p = [CounterFrame k]" and "k < length (counters p)"
    and "counters p ! k = c" and "counter_element c < length (elements p)"
    and "counter_suffix (elements p ! counter_element c) = suffix"
  shows "run_frames toLocaleString k ts p = displayed_texts toLocaleString c suffix ts"
  using assms
proof (induction ts arbitrary: p)
  case Nil
  then show ?case by simp
next
  case (Cons t ts)
  let ?q = "p\<lparr>frame_requests := [], now := t\<rparr>"
  let ?p' = "animation_frame toLocaleString t p"
  have p': "?p' = update toLocaleString k t ?q"
    using Cons.prems(1) by (rule animation_frame_single)
  have q: "k < length (counters ?q)" "c = counters ?q ! k"
      "counter_element c < length (elements ?q)"
    using Cons.prems by simp_all
  note u = update_text [OF q, of toLocaleString t]
  have cs: "counters ?p' = counters p" using u(3) p' by simp
  have shown: "textContent (elements ?p' ! counter_element c)
      = (if counter_progress c t < 1 then toLocaleString (displayed_value c t)
         else toLocaleString (displayed_value c t) @ suffix)"
    using u(1) p' Cons.prems(5) by (simp add: displayed_value_def)
  show ?case
  proof (cases "counter_progress c t < 1")
    case True
    have "run_frames toLocaleString k ts ?p' = displayed_texts toLocaleString c suffix ts"
    proof (rule Cons.IH)
      show "frame_requests ?p' = [CounterFrame k]" using u(2) p' True by simp
      show "k < length (counters ?p')" using cs Cons.prems(2) by simp
      show "counters ?p' ! k = c" using cs Cons.prems(3) by simp
      show "counter_element c < length (elements ?p')" using u(4) p' Cons.prems(4) by simp
      show "counter_suffix (elements ?p' ! counter_element c) = suffix"
        using u(5) p' Cons.prems(5) by simp
    qed
    then show ?thesis
      using True Cons.prems(1,3) shown cs by (simp add: Let_def)
  next
    case False
    have none: "frame_requests ?p' = []" using u(2) p' False by simp
    have "run_frames toLocaleString k ts ?p' = []"
      using none by (cases ts) simp_all
    then show ?thesis
      using False Cons.prems(1,3) shown cs by (simp add: Let_def)
  qed
qed

subsection \<open>The eased value is monotone in time\<close>

lemma counter_progress_le_1: "counter_progress c t \<le> 1"
  by (simp add: counter_progress_def Let_def)

lemma easeOut_mono: "x \<le> y \<Longrightarrow> easeOut x \<le> easeOut y"
proof -
  assume "x \<le> y"
  then have "fl (1 - y) \<le> fl (1 - x)" by (intro fl_mono) simp
  then have "fl (1 - y) ^ 3 \<le> fl (1 - x) ^ 3" by (intro power_mono_odd) simp_all
  then have "fl (fl (1 - y) ^ 3) \<le> fl (fl (1 - x) ^ 3)" by (rule fl_mono)
  then show ?thesis unfolding easeOut_def Math_pow_def by (intro fl_mono) simp
qed

lemma easeOut_0: "easeOut 0 = 0"
  by (simp add: easeOut_def Math_pow_def)

lemma easeOut_1: "easeOut 1 = 1"
  by (simp add: easeOut_def Math_pow_def)

lemma counter_progress_mono:
  assumes "0 < duration c" and "s \<le> t"
  shows "counter_progress c s \<le> counter_progress c t"
proof -
  have "fl (s - startTime c) \<le> fl (t - startTime c)"
    using assms(2) by (intro fl_mono) simp
  then have "fl (s - startTime c) / duration c \<le> fl (t - startTime c) / duration c"
    using assms(1) by (intro divide_right_mono) simp_all
  then have "fl (fl (s - startTime c) / duration c) \<le> fl (fl (t - startTime c) / duration c)"
    by (rule fl_mono)
  then show ?thesis by (simp add: counter_progress_def Let_def min.coboundedI1)
qed

lemma counter_current_mono:
  assumes "0 \<le> target c" and "0 < duration c" and "s \<le> t"
  shows "counter_current c s \<le> counter_current c t"
proof -
  let ?T = "fl (real_of_int (target c) - 0)"
  have T: "0 \<le> ?T" using assms(1) by (intro fl_nonneg) simp
  have "easeOut (counter_progress c s) \<le> easeOut (counter_progress c t)"
    using assms(2,3) by (intro easeOut_mono counter_progress_mono)
  then have "?T * easeOut (counter_progress c s) \<le> ?T * easeOut (counter_progress c t)"
    using T by (rule mult_left_mono)
  then have "fl (?T * easeOut (counter_progress c s)) \<le> fl (?T * easeOut (counter_progress c t))"
    by (rule fl_mono)
  then have "fl (0 + fl (?T * easeOut (counter_progress c s)))
      \<le> fl (0 + fl (?T * easeOut (counter_progress c t)))"
    by (intro fl_mono) simp
  then show ?thesis
    unfolding counter_current_def by (rule floor_mono)
qed

lemma counter_current_done:
  assumes "is_double (real_of_int (target c))" and "\<not> counter_progress c t < 1"
  shows "counter_current c t = target c"
proof -
  have "counter_progress c t = 1"
    using assms(2) counter_progress_le_1 [of c t] by simp
  moreover have "fl (real_of_int (target c)) = real_of_int (target c)"
    using assms(1) by (simp add: is_double_def)
  ultimately show ?thesis
    by (simp add: counter_current_def easeOut_1)
qed

lemma displayed_value_current:
  "is_double (real_of_int (target c)) \<Longrightarrow> displayed_value c t = counter_current c t"
  by (simp add: displayed_value_def counter_current_done)

lemma displayed_values_subset:
  "set (displayed_values c ts) \<subseteq> displayed_value c ` set ts"
  by (induction ts) auto

lemma displayed_values_sorted:
  assumes "0 \<le> target c" and "0 < duration c" and "sorted ts"
    and "is_double (real_of_int (target c))"
  shows "sorted (displayed_values c ts)"
  using assms(3)
proof (induction ts)
  case Nil
  then show ?case by simp
next
  case (Cons t ts)
  have "displayed_value c t \<le> v" if mem: "v \<in> set (displayed_values c ts)" for v
  proof -
    have "v \<in> displayed_value c ` set ts"
      using mem displayed_values_subset [of c ts] by blast
    then obtain u where "u \<in> set ts" "v = displayed_value c u"
      by blast
    moreover have "t \<le> u" using Cons.prems \<open>u \<in> set ts\<close> by simp
    ultimately show ?thesis
      using assms(1,2,4) by (simp add: displayed_value_current counter_current_mono)
  qed
  then show ?case using Cons by simp
qed

lemma displayed_values_last:
  "\<exists>t \<in> set ts. \<not> counter_progress c t < 1 \<Longrightarrow> last (displayed_values c ts) = target c"
proof (induction ts)
  case Nil
  then show ?case by simp
next
  case (Cons t ts)
  show ?case
  proof (cases "counter_progress c t < 1")
    case True
    then have ex: "\<exists>t \<in> set ts. \<not> counter_progress c t < 1" using Cons.prems by auto
    then have "ts \<noteq> []" by auto
    then have "displayed_values c ts \<noteq> []" by (cases ts) simp_all
    then show ?thesis using True Cons.IH [OF ex] by simp
  next
    case False
    then show ?thesis by (simp add: displayed_value_def)
  qed
qed

lemma counter_progress_start: "counter_progress c (startTime c) = 0"
  by (simp add: counter_progress_def)

lemma counter_progress_late:
  assumes "0 < duration c" and "is_double (duration c)" and "startTime c + duration c \<le> t"
  shows "\<not> counter_progress c t < 1"
proof -
  have "fl (duration c) \<le> fl (t - startTime c)"
    using assms(3) by (intro fl_mono) simp
  then have "duration c \<le> fl (t - startTime c)"
    using assms(2) by (simp add: is_double_def)
  then have "1 \<le> fl (t - startTime c) / duration c"
    using assms(1) by (simp add: field_simps)
  then have "fl 1 \<le> fl (fl (t - startTime c) / duration c)" by (rule fl_mono)
  then show ?thesis by (simp add: counter_progress_def Let_def)
qed

subsection \<open>The counter of the sample document\<close>









lemma en_US_samples: "en_US 0 = ''0''" "en_US 270 = ''270''" "en_US 271 = ''271''"
  by (simp_all add: en_US_def digit_char_def)

lemma running_counter_fields:
  "target running_counter = 1000" "duration running_counter = 2000"
  "startTime running_counter = 0" "counter_element running_counter = 5"
  by (simp_all add: running_counter_def idle_counter_def)

lemma running_samples:
  "counter_progress running_counter 0 = 0" "counter_progress running_counter 1000 = 1 / 2"
  "counter_progress running_counter 2000 = 1"
  "counter_current running_counter 0 = 0" "counter_current running_counter 1000 = 875"
  by (simp_all add: counter_progress_def counter_current_def running_counter_fields fl_halves
        easeOut_0 easeOut_half)

lemma counting_page_facts:
  "0 < length (counters counting_page)" "counters counting_page ! 0 = running_counter"
  "counter_element running_counter < length (elements counting_page)"
  "counter_suffix (elements counting_page ! counter_element running_counter) = ''+''"
  "frame_requests counting_page = [CounterFrame 0]"
  by (simp_all add: counting_page_def running_counter_def idle_counter_def sample_page_def
        counter_suffix_def)

subsection \<open>What a frame displays\<close>




subsection \<open>The displayed values of a counter over its frames\<close>

text \<open>
  The target and the duration of a counter are numbers of the script, that is, doubles:
  the constructor stores what \<^verbatim>\<open>parseInt\<close> returns, or 0, and the duration it is given,
  or 2000.
\<close>

lemma new_CounterAnimation_doubles:
  assumes "new_CounterAnimation el opt_duration p = Inr q"
    and "case opt_duration of None \<Rightarrow> True | Some d \<Rightarrow> is_double d"
  shows "is_double (real_of_int (target (last (counters q))))
       \<and> is_double (duration (last (counters q)))"
proof -
  let ?arg = "map_of (dataset (elements p ! el)) ''target''"
  have t: "is_double (real_of_int (case parseInt ?arg of None \<Rightarrow> 0 | Some n \<Rightarrow> n))"
    by (cases "parseInt ?arg") (simp_all add: parseInt_is_double, simp add: is_double_def)
  have d: "is_double (case opt_duration of None \<Rightarrow> 2000 | Some d \<Rightarrow> if d = 0 then 2000 else d)"
    using assms(2) by (cases opt_duration) (simp_all add: is_double_def)
  show ?thesis
    using assms(1) t d
    by (auto simp: new_CounterAnimation_def Let_def split: if_splits)
qed

text \<open>
  Claim C9, as the code has it. For a counter with a target that is not negative and a
  positive duration, both of them doubles as every number of the script is, on timestamps
  that do not decrease, the values displayed frame after frame do not decrease; the value
  at the start time is 0; and when some timestamp lies a duration or more after the start,
  the last value displayed is the target.
\<close>

theorem counter_values_nondecreasing:
  assumes "0 \<le> target c" and "0 < duration c" and "sorted ts"
    and "is_double (real_of_int (target c))" and "is_double (duration c)"
  shows "sorted (displayed_values c ts)
       \<and> displayed_value c (startTime c) = 0
       \<and> ((\<exists>t \<in> set ts. startTime c + duration c \<le> t) \<longrightarrow>
            last (displayed_values c ts) = target c)"
proof -
  have start: "displayed_value c (startTime c) = 0"
    by (simp add: displayed_value_def counter_current_def counter_progress_start easeOut_0)
  have "last (displayed_values c ts) = target c"
    if late: "\<exists>t \<in> set ts. startTime c + duration c \<le> t"
  proof -
    obtain t where t: "t \<in> set ts" "startTime c + duration c \<le> t" using late by blast
    then have "\<not> counter_progress c t < 1"
      using assms(2,5) by (intro counter_progress_late)
    with t(1) show ?thesis by (intro displayed_values_last) blast
  qed
  with start displayed_values_sorted [OF assms(1-4)] show ?thesis by blast
qed

theorem counter_values_nondecreasing_witness:
  "displayed_values running_counter [0, 1000, 2000, 3000] = [0, 875, 1000]
   \<and> sorted (displayed_values running_counter [0, 1000, 2000, 3000])
   \<and> last (displayed_values running_counter [0, 1000, 2000, 3000]) = 1000
   \<and> run_frames en_US 0 [0, 1000, 2000, 3000] counting_page = [''0'', ''875'', ''1,000+'']"
proof -
  have c: "0 \<le> target running_counter" "0 < duration running_counter"
    by (simp_all add: running_counter_fields)
  have d: "is_double (real_of_int (target running_counter))" "is_double (duration running_counter)"
    by (simp_all add: running_counter_fields is_double_def)
  have ts: "sorted [0, 1000, 2000, 3000 :: real]" by simp
  have vals: "displayed_values running_counter [0, 1000, 2000, 3000] = [0, 875, 1000]"
    by (simp add: displayed_value_def running_samples running_counter_fields)
  have "run_frames en_US 0 [0, 1000, 2000, 3000] counting_page
      = displayed_texts en_US running_counter ''+'' [0, 1000, 2000, 3000]"
    using counting_page_facts by (intro run_frames_texts) simp_all
  also have "\<dots> = [''0'', ''875'', ''1,000+'']"
    by (simp add: displayed_value_def running_samples running_counter_fields
          en_US_samples en_US_875 en_US_1000)
  finally show ?thesis
    using counter_values_nondecreasing [OF c ts d] vals running_counter_fields(1) by simp
qed

text \<open>
  With a negative target the values fall: the counter whose markup says
  \<^verbatim>\<open>data-target="-5"\<close> shows 0 at its start and \<open>-5\<close> one second later.
\<close>

theorem counter_negative_target_counterexample:
  "parseInt (Some ''-5'') = Some (- 5)
   \<and> target falling_counter = - 5
   \<and> displayed_values falling_counter [0, 1000] = [0, - 5]
   \<and> \<not> sorted (displayed_values falling_counter [0, 1000])"
proof -
  have "parseInt (Some ''-5'') = Some (- 5)"
    by (simp add: parseInt_def number_defs)
  moreover have f: "target falling_counter = - 5" "duration falling_counter = 2000"
    "startTime falling_counter = 0"
    by (simp_all add: falling_counter_def running_counter_def idle_counter_def)
  have p: "counter_progress falling_counter 0 = 0" "counter_progress falling_counter 1000 = 1 / 2"
    by (simp_all add: counter_progress_def f fl_halves)
  have r: "fl (- (35 / 8)) = - (35 / 8)"
    by (simp add: fl_eval)
  have "counter_current falling_counter 0 = 0" "counter_current falling_counter 1000 = - 5"
    by (simp_all add: counter_current_def p f easeOut_0 easeOut_half r)
  then have "displayed_values falling_counter [0, 1000] = [0, - 5]"
    by (simp add: displayed_value_def p)
  ultimately show ?thesis using f(1) by simp
qed

section \<open>The FAQ accordion\<close>

lemma close_others_length [simp]: "length (close_others i faqItems) = length faqItems"
  by (simp add: close_others_def)


lemma toggle_item_length [simp]: "length (toggle_item i faqItems) = length faqItems"
  by (simp add: toggle_item_def)

lemma item_listener_length [simp]: "length (item_listener i faqItems) = length faqItems"
  by (simp add: item_listener_def)






lemma fold_item_listener_length [simp]:
  "length (fold item_listener ls faqItems) = length faqItems"
  by (induction ls arbitrary: faqItems) simp_all






text \<open>
  A click that passes one question, found for item \<open>i\<close> and for no other item, runs the
  listener of item \<open>i\<close> and no other.
\<close>

lemma filter_upt_single: "i < n \<Longrightarrow> filter (\<lambda>j. j = i) [0..<n] = [i]"
  by (induction n) (auto simp: less_Suc_eq)

lemma listeners_on_own:
  assumes "i < length faqItems" and "question (faqItems ! i) = Some q"
    and "\<forall>j < length faqItems. j \<noteq> i \<longrightarrow> question (faqItems ! j) \<noteq> Some q"
  shows "concat (map (\<lambda>q. listeners_on q faqItems) [q]) = [i]"
proof -
  have "filter (\<lambda>j. question (faqItems ! j) = Some q) [0..<length faqItems]
      = filter (\<lambda>j. j = i) [0..<length faqItems]"
    using assms(2,3) by (intro filter_cong) auto
  then show ?thesis using assms(1) by (simp add: listeners_on_def filter_upt_single)
qed





section \<open>Form validation\<close>

lemma validate_inputs_eq:
  "validate_inputs inputs ok
   = (ok \<and> \<not> list_ex (\<lambda>c. ctl_required c \<and> is_blank c) inputs, map validate_input inputs)"
  by (induction inputs arbitrary: ok) (auto simp: Let_def)

lemma validate_input_value [simp]: "ctl_value (validate_input c) = ctl_value c"
  by (simp add: validate_input_def)

lemma validate_input_default [simp]: "ctl_defaultValue (validate_input c) = ctl_defaultValue c"
  by (simp add: validate_input_def)

lemma validate_input_name [simp]: "ctl_name (validate_input c) = ctl_name c"
  by (simp add: validate_input_def)

lemma validate_input_error:
  "ctl_required c \<Longrightarrow>
   classList_contains (ctl_classes (validate_input c)) ''error'' = is_blank c"
  by (simp add: validate_input_def classList_contains_def classList_add_def classList_remove_def)

lemma control_entry_validate [simp]: "control_entry (validate_input c) = control_entry c"
  by (simp add: control_entry_def split: option.splits)

lemma formData_validate: "formData (f\<lparr>controls := map validate_input (controls f)\<rparr>) = formData f"
  by (simp add: formData_def comp_def)

text \<open>
  Claim C8, as the code has it. A submit of a validated form is intercepted. When some
  required input is blank after trimming, every required input carries the error class
  exactly when it is blank, the values stay, the success message keeps its display and
  nothing is captured. Otherwise the form data is captured, the success message, when
  there is one, is displayed as a block, and \<^verbatim>\<open>reset\<close> gives every control its default
  value back.
\<close>

theorem submit_validated:
  assumes "data_validate f"
  shows "defaultPrevented (submit f)
       \<and> (some_blank f \<longrightarrow>
            controls (form_after (submit f)) = map validate_input (controls f)
          \<and> (\<forall>c \<in> set (controls f). ctl_required c \<longrightarrow>
                classList_contains (ctl_classes (validate_input c)) ''error'' = is_blank c)
          \<and> map ctl_value (controls (form_after (submit f))) = map ctl_value (controls f)
          \<and> success_display (form_after (submit f)) = success_display f
          \<and> logged (submit f) = None)
       \<and> (\<not> some_blank f \<longrightarrow>
            logged (submit f) = Some (fromEntries (formData f))
          \<and> success_display (form_after (submit f))
              = map_option (\<lambda>d. Some ''block'') (success_display f)
          \<and> map ctl_value (controls (form_after (submit f))) = map ctl_defaultValue (controls f))"
  using assms
  by (auto simp: submit_def validate_inputs_eq some_blank_def Let_def reset_def
        validate_input_error formData_validate comp_def)

lemma contact_form_facts:
  "data_validate contact_form" "\<not> some_blank contact_form"
  "data_validate blank_form" "some_blank blank_form"
  by (simp_all add: contact_form_def blank_form_def some_blank_def is_blank_def trim_def is_ws_def)

theorem submit_validated_witness:
  "logged (submit contact_form) = Some [(''name'', ''Ann''), (''city'', ''Multan''), (''note'', [])]
   \<and> success_display (form_after (submit contact_form)) = Some (Some ''block'')
   \<and> map ctl_value (controls (form_after (submit contact_form))) = [[], ''Bhakkar'', []]
   \<and> defaultPrevented (submit blank_form)
   \<and> map ctl_value (controls (form_after (submit blank_form))) = [''  '', ''Multan'', []]
   \<and> map ctl_classes (controls (form_after (submit blank_form)))
       = [[''field'', ''error''], [''field''], [''field'']]
   \<and> success_display (form_after (submit blank_form)) = Some (Some ''none'')
   \<and> logged (submit blank_form) = None"
proof -
  have entries: "fromEntries (formData contact_form)
      = [(''name'', ''Ann''), (''city'', ''Multan''), (''note'', [])]"
    by (simp add: fromEntries_def formData_def control_entry_def contact_form_def)
  have defaults: "map ctl_defaultValue (controls contact_form) = [[], ''Bhakkar'', []]"
    "success_display contact_form = Some (Some ''none'')"
    "map ctl_value (controls blank_form) = [''  '', ''Multan'', []]"
    "success_display blank_form = Some (Some ''none'')"
    by (simp_all add: contact_form_def blank_form_def)
  have flagged: "map ctl_classes (map validate_input (controls blank_form))
      = [[''field'', ''error''], [''field''], [''field'']]"
    by (simp add: contact_form_def blank_form_def validate_input_def is_blank_def trim_def
          is_ws_def classList_add_def classList_remove_def)
  show ?thesis
    using submit_validated [OF contact_form_facts(1)] submit_validated [OF contact_form_facts(3)]
      contact_form_facts(2,4) entries defaults flagged
    by (simp add: comp_def)
qed

text \<open>
  The reset does not empty the form: the city of the sample form, which the markup fills
  in, reads \<^verbatim>\<open>Bhakkar\<close> after a valid submit.
\<close>

theorem submit_reset_counterexample:
  "data_validate contact_form \<and> \<not> some_blank contact_form
   \<and> map ctl_value (controls (form_after (submit contact_form))) = [[], ''Bhakkar'', []]
   \<and> map ctl_value (controls (form_after (submit contact_form))) \<noteq> [[], [], []]"
proof -
  have "map ctl_value (controls (form_after (submit contact_form))) = [[], ''Bhakkar'', []]"
    by (simp add: submit_def validate_inputs_eq contact_form_facts [unfolded some_blank_def]
          Let_def reset_def comp_def)
       (simp add: contact_form_def)
  then show ?thesis by (simp add: contact_form_facts)
qed

section \<open>The carousel advances modulo the number of slides\<close>

lemma auto_rotate_current:
  "0 < slides_length c \<Longrightarrow> currentSlide c = Some i \<Longrightarrow>
   currentSlide (auto_rotate c) = Some ((i + 1) mod slides_length c)"
  by (simp add: auto_rotate_def goToSlide_def Let_def)

lemma auto_rotate_length: "slides_length (auto_rotate c) = slides_length c"
  by (simp add: auto_rotate_def goToSlide_def Let_def)

lemma auto_rotate_transform:
  "track_transform (auto_rotate c) =
   ''translateX(-'' @ index_text (currentSlide (auto_rotate c)) @ ''%)''"
  by (simp add: auto_rotate_def goToSlide_def Let_def)

lemma auto_rotate_funpow:
  assumes "i < slides_length c" and "currentSlide c = Some i"
  shows "currentSlide ((auto_rotate ^^ k) c) = Some ((i + k) mod slides_length c)
       \<and> slides_length ((auto_rotate ^^ k) c) = slides_length c"
proof (induction k)
  case 0
  show ?case using assms by simp
next
  case (Suc k)
  have "0 < slides_length c" using assms(1) by simp
  with Suc show ?case
    by (simp add: auto_rotate_current auto_rotate_length mod_Suc_eq)
qed

lemma goToSlide_transform:
  "track_transform (goToSlide (Some k) c) = ''translateX(-'' @ string_of_nat (k * 100) @ ''%)''"
  by (simp add: goToSlide_def index_text_def)

lemma string_of_nat_100: "string_of_nat 100 = ''100''"
  by (simp add: digit_char_def)

text \<open>
  Claim C4. In a carousel with \<open>n > 0\<close> slides, one step of the interval timer moves the
  current index from \<open>i\<close> to \<open>(i + 1) mod n\<close>, and \<open>k\<close> steps from an index
  below \<open>n\<close> reach \<open>(i + k) mod n\<close>: five steps from index 0 with four slides land on
  index 1. Jumping to slide \<open>k\<close> sets the track's transform to \<^verbatim>\<open>translateX(-\<close>\<open>k * 100\<close>\<^verbatim>\<open>%)\<close>,
  which is \<^verbatim>\<open>translateX(-100%)\<close> at index 1, also when the timer got there.
\<close>

theorem carousel_advance_and_transform:
  assumes "0 < slides_length c" and "currentSlide c = Some i"
  shows "currentSlide (auto_rotate c) = Some ((i + 1) mod slides_length c)
       \<and> (i < slides_length c \<longrightarrow>
            currentSlide ((auto_rotate ^^ k) c) = Some ((i + k) mod slides_length c))
       \<and> (slides_length c = 4 \<and> i = 0 \<longrightarrow>
            currentSlide ((auto_rotate ^^ 5) c) = Some 1
            \<and> track_transform ((auto_rotate ^^ 5) c) = ''translateX(-100%)'')
       \<and> track_transform (goToSlide (Some j) c) = ''translateX(-'' @ string_of_nat (j * 100) @ ''%)''
       \<and> track_transform (goToSlide (Some 1) c) = ''translateX(-100%)''"
proof -
  have step: "currentSlide (auto_rotate c) = Some ((i + 1) mod slides_length c)"
    using assms by (rule auto_rotate_current)
  have steps: "i < slides_length c \<longrightarrow>
          currentSlide ((auto_rotate ^^ k) c) = Some ((i + k) mod slides_length c)"
    using assms(2) auto_rotate_funpow by blast
  have jump: "track_transform (goToSlide (Some j) c) = ''translateX(-'' @ string_of_nat (j * 100) @ ''%)''"
    by (rule goToSlide_transform)
  have jump1: "track_transform (goToSlide (Some 1) c) = ''translateX(-100%)''"
    using goToSlide_transform [of 1 c] string_of_nat_100 by simp
  have five: "slides_length c = 4 \<and> i = 0 \<longrightarrow>
          currentSlide ((auto_rotate ^^ 5) c) = Some 1
          \<and> track_transform ((auto_rotate ^^ 5) c) = ''translateX(-100%)''"
  proof
    assume four: "slides_length c = 4 \<and> i = 0"
    then have "i < slides_length c" by simp
    from auto_rotate_funpow [OF this assms(2), of 5] four
    have cur: "currentSlide ((auto_rotate ^^ 5) c) = Some 1" by simp
    have "(auto_rotate ^^ 5) c = auto_rotate ((auto_rotate ^^ 4) c)"
      by (simp add: eval_nat_numeral)
    then have "track_transform ((auto_rotate ^^ 5) c) =
        ''translateX(-'' @ index_text (currentSlide ((auto_rotate ^^ 5) c)) @ ''%)''"
      using auto_rotate_transform [of "(auto_rotate ^^ 4) c"] by simp
    with cur show "currentSlide ((auto_rotate ^^ 5) c) = Some 1
        \<and> track_transform ((auto_rotate ^^ 5) c) = ''translateX(-100%)''"
      using string_of_nat_100 by (simp add: index_text_def)
  qed
  from step steps five jump jump1 show ?thesis by blast
qed

theorem carousel_advance_and_transform_witness:
  "initTestimonialCarousel (Some (4, [])) (Some []) = Some four_slides
   \<and> currentSlide (auto_rotate four_slides) = Some 1
   \<and> currentSlide ((auto_rotate ^^ 5) four_slides) = Some 1
   \<and> track_transform ((auto_rotate ^^ 5) four_slides) = ''translateX(-100%)''"
proof -
  have len: "0 < slides_length four_slides" and cur: "currentSlide four_slides = Some 0"
    by (simp_all add: four_slides_def)
  have "[0..<4] = [0, 1, 2, 3]" by (simp add: upt_rec)
  then have "initTestimonialCarousel (Some (4, [])) (Some []) = Some four_slides"
    by (simp add: initTestimonialCarousel_def four_slides_def)
  moreover have "slides_length four_slides = 4" by (simp add: four_slides_def)
  ultimately show ?thesis
    using carousel_advance_and_transform [OF len cur, of 5 1]
    by simp
qed

section \<open>Hiding the page loader is idempotent\<close>

lemma fire_classes:
  "''hidden'' \<in> set (loader_classes pl) \<Longrightarrow> loader_classes (fire t pl) = loader_classes pl"
  by (cases "snd t")
     (simp_all add: fire_def run_task_def hide_def setTimeout_def classList_add_present
        classList_contains_def)

lemma run_timers_classes:
  "''hidden'' \<in> set (loader_classes pl) \<Longrightarrow> loader_classes (run_timers pl) = loader_classes pl"
proof (induction pl rule: run_timers.induct)
  case (1 pl)
  show ?case
  proof (cases "earliest (timers pl)")
    case None
    then show ?thesis by (simp add: run_timers.simps)
  next
    case (Some t)
    have "loader_classes (run_timers (fire t pl)) = loader_classes (fire t pl)"
      using "1.IH" [OF Some] "1.prems" by (simp add: fire_classes)
    then show ?thesis
      using Some "1.prems" by (simp add: run_timers.simps [of pl] fire_classes)
  qed
qed

lemma fire_detaches:
  assumes "detaches pl" and "t \<in> set (timers pl)"
  shows "detaches (fire t pl)"
proof (cases "snd t = FallbackHide")
  case True
  show ?thesis
  proof (cases "loader_attached pl")
    case False
    then show ?thesis
      using True by (simp add: detaches_def fire_def run_task_def hide_def setTimeout_def)
  next
    case att: True
    then obtain u where u: "u \<in> set (timers pl)" "snd u \<noteq> FallbackHide"
      using assms(1) by (auto simp: detaches_def)
    then have "u \<noteq> t" using True by auto
    then have "u \<in> set (remove1 t (timers pl))" using u(1) by simp
    then show ?thesis
      using True u(2) by (auto simp: detaches_def fire_def run_task_def hide_def setTimeout_def)
  qed
next
  case False
  then show ?thesis
    by (cases "snd t") (auto simp: detaches_def fire_def run_task_def hide_def setTimeout_def)
qed

lemma run_timers_detaches: "detaches pl \<Longrightarrow> \<not> loader_attached (run_timers pl)"
proof (induction pl rule: run_timers.induct)
  case (1 pl)
  show ?case
  proof (cases "earliest (timers pl)")
    case None
    then have "timers pl = []" by (simp add: earliest_None)
    then show ?thesis using None "1.prems" by (simp add: run_timers.simps detaches_def)
  next
    case (Some t)
    have "detaches (fire t pl)"
      using "1.prems" Some by (intro fire_detaches earliest_mem)
    then have "\<not> loader_attached (run_timers (fire t pl))"
      using "1.IH" [OF Some] by simp
    then show ?thesis using Some by (simp add: run_timers.simps [of pl])
  qed
qed

lemma hide_funpow_classes:
  "0 < n \<Longrightarrow> loader_classes ((hide ^^ n) pl) = classList_add (loader_classes pl) ''hidden''"
proof (induction n)
  case 0
  then show ?case by simp
next
  case (Suc n)
  show ?case
  proof (cases "n = 0")
    case True
    then show ?thesis by (simp add: hide_def setTimeout_def)
  next
    case False
    then show ?thesis using Suc.IH by (simp add: hide_def setTimeout_def classList_add_idem)
  qed
qed

lemma hide_funpow_detaches: "0 < n \<Longrightarrow> detaches ((hide ^^ n) pl)"
  by (cases n) (auto simp: detaches_def hide_def setTimeout_def)

text \<open>
  Both paths to \<^verbatim>\<open>hide\<close> in one run: the page is still loading at construction and its
  load event arrives at 2800 ms, so the fallback hides the loader at 3000 ms and the
  delayed hide of the load listener calls \<^verbatim>\<open>hide\<close> again at 3300 ms.
\<close>

lemma loader_both_paths:
  "run_timers (load_event 2800 (init Loading fresh_loader))
   = \<lparr>loader_classes = [''page-loader'', ''hidden''], loader_attached = False,
      load_listener = True, clock = 3800, timers = []\<rparr>"
  by (simp add: fresh_loader_def init_def load_event_def setTimeout_def Let_def
        run_timers.simps fire_def run_task_def hide_def classList_add_def classList_contains_def)

lemma loader_complete:
  "run_timers (init Complete fresh_loader)
   = \<lparr>loader_classes = [''page-loader'', ''hidden''], loader_attached = False,
      load_listener = False, clock = 500, timers = []\<rparr>"
  by (simp add: fresh_loader_def init_def setTimeout_def
        run_timers.simps fire_def run_task_def hide_def classList_add_def classList_contains_def)

text \<open>
  Claim C10. Calling \<^verbatim>\<open>hide\<close> any number \<open>n \<ge> 1\<close> of times and letting every pending
  timer fire leaves the loader as one call does: the class list is the same, it holds
  \<^verbatim>\<open>hidden\<close>, and the element is detached from the document.
\<close>

theorem hide_idempotent:
  assumes "0 < n"
  shows "loader_classes (run_timers ((hide ^^ n) pl)) = loader_classes (run_timers (hide pl))
       \<and> loader_attached (run_timers ((hide ^^ n) pl)) = loader_attached (run_timers (hide pl))
       \<and> classList_contains (loader_classes (run_timers ((hide ^^ n) pl))) ''hidden''
       \<and> \<not> loader_attached (run_timers ((hide ^^ n) pl))"
proof -
  have cls: "loader_classes (run_timers ((hide ^^ k) pl)) = classList_add (loader_classes pl) ''hidden''"
    if "0 < k" for k
    using that by (simp add: run_timers_classes hide_funpow_classes classList_add_mem)
  have det: "\<not> loader_attached (run_timers ((hide ^^ k) pl))" if "0 < k" for k
    using that by (intro run_timers_detaches hide_funpow_detaches)
  show ?thesis
    using cls [OF assms] cls [of 1] det [OF assms] det [of 1]
    by (simp add: classList_contains_def classList_add_mem)
qed

theorem hide_idempotent_witness:
  "loader_classes (run_timers ((hide ^^ 3) fresh_loader)) = [''page-loader'', ''hidden'']
   \<and> loader_classes (run_timers (hide fresh_loader)) = [''page-loader'', ''hidden'']
   \<and> \<not> loader_attached (run_timers ((hide ^^ 3) fresh_loader))
   \<and> \<not> loader_attached (run_timers (hide fresh_loader))"
proof -
  have one: "loader_classes (run_timers (hide fresh_loader)) = [''page-loader'', ''hidden'']
      \<and> \<not> loader_attached (run_timers (hide fresh_loader))"
    by (simp add: fresh_loader_def hide_def setTimeout_def classList_add_def
          run_timers.simps fire_def run_task_def)
  have "(0::nat) < 3" by simp
  from hide_idempotent [OF this, of fresh_loader] one show ?thesis by simp
qed

end
